theory Spec2Isabelle
  imports Main "HOL-Library.Word" "HOL-Library.Signed_Division" "HOL-Library.Monad_Syntax"
begin

unbundle bit_operations_syntax

section \<open>The cube engine of cube.c\<close>

text \<open>
  A cube is a C \<open>int\<close>. Its value is modelled as an \<open>int\<close>; the only arithmetic of
  \<open>rotate_cube\<close> that leaves the range of the operands is the final sum, whose seven summands
  are table entries (0..20) times powers of 21, so it stays below \<open>21 ^ 7 < 2 ^ 31\<close>.
  C's \<open>/\<close> and \<open>%\<close> truncate towards zero: they are \<open>sdiv\<close> and \<open>smod\<close>.
  Behaviour that C leaves undefined (an array index out of range, a missing return
  value, a write past a buffer) is the result \<open>None\<close>.
\<close>

definition c21_6 :: int where "c21_6 = 85766121"
definition c21_5 :: int where "c21_5 = 4084101"
definition c21_4 :: int where "c21_4 = 194481"
definition c21_3 :: int where "c21_3 = 9261"
definition c21_2 :: int where "c21_2 = 441"
definition c21_1 :: int where "c21_1 = 21"
definition c21_0 :: int where "c21_0 = 1"

definition SOLVED_CUBE :: int where "SOLVED_CUBE = 0x5FD3097E"

definition turn_table :: "int list list" where
  "turn_table =
    [[4,5,3,11,9,10,1,2,0,8,6,7,12,13,14,15,16,17,18,19,20],
     [8,6,7,2,0,1,10,11,9,4,5,3,12,13,14,15,16,17,18,19,20],
     [13,14,12,1,2,0,6,7,8,9,10,11,17,15,16,5,3,4,18,19,20],
     [5,3,4,16,17,15,6,7,8,9,10,11,2,0,1,13,14,12,18,19,20],
     [7,8,6,3,4,5,20,18,19,9,10,11,1,2,0,15,16,17,14,12,13],
     [14,12,13,3,4,5,2,0,1,9,10,11,19,20,18,15,16,17,7,8,6]]"

text \<open>\<open>turn_table[turn][state]\<close>, undefined outside the 6 by 21 array.\<close>

definition turn_entry :: "nat \<Rightarrow> int \<Rightarrow> int option" where
  "turn_entry turn state =
     (if turn < 6 \<and> 0 \<le> state \<and> state < 21
      then Some (turn_table ! turn ! nat state) else None)"

definition rotate_cube :: "int \<Rightarrow> nat \<Rightarrow> int option" where
  "rotate_cube cube turn = do {
     state6 \<leftarrow> turn_entry turn (cube sdiv c21_6);
     state5 \<leftarrow> turn_entry turn ((cube smod c21_6) sdiv c21_5);
     state4 \<leftarrow> turn_entry turn ((cube smod c21_5) sdiv c21_4);
     state3 \<leftarrow> turn_entry turn ((cube smod c21_4) sdiv c21_3);
     state2 \<leftarrow> turn_entry turn ((cube smod c21_3) sdiv c21_2);
     state1 \<leftarrow> turn_entry turn ((cube smod c21_2) sdiv c21_1);
     state0 \<leftarrow> turn_entry turn (cube smod c21_1);
     Some (state0 + (state1 * c21_1) + (state2 * c21_2) + (state3 * c21_3) +
           (state4 * c21_4) + (state5 * c21_5) + (state6 * c21_6))
   }"

definition frontCC :: "int \<Rightarrow> int option" where "frontCC cube = rotate_cube cube 0"
definition frontC :: "int \<Rightarrow> int option" where "frontC cube = rotate_cube cube 1"
definition leftCC :: "int \<Rightarrow> int option" where "leftCC cube = rotate_cube cube 2"
definition leftC :: "int \<Rightarrow> int option" where "leftC cube = rotate_cube cube 3"
definition topCC :: "int \<Rightarrow> int option" where "topCC cube = rotate_cube cube 4"
definition topC :: "int \<Rightarrow> int option" where "topC cube = rotate_cube cube 5"

section \<open>The frontier queue of queue.c\<close>

text \<open>
  \<open>struct queue\<close>: the cells at \<open>base\<close>, and \<open>head\<close> and \<open>tail\<close> as offsets
  from \<open>base\<close>. \<open>createQueue\<close> is modelled where both allocations succeed
  (\<open>fill_state_table\<close> does not test its result).
\<close>

record queue =
  base :: "int list"
  head :: nat
  tail :: nat
  max_cells :: int
  cells_used :: int

definition createQueue :: "int \<Rightarrow> queue" where
  "createQueue n =
     \<lparr>base = replicate (nat n) 0, head = 0, tail = 0, max_cells = n, cells_used = 0\<rparr>"

text \<open>Each operation returns the value the C function returns and the queue it leaves.\<close>

definition enqueue :: "queue \<Rightarrow> int \<Rightarrow> int \<times> queue" where
  "enqueue q element =
     (if cells_used q \<ge> max_cells q then (-1, q\<lparr>cells_used := max_cells q\<rparr>)
      else
        let q = q\<lparr>base := (base q)[tail q := element]\<rparr>;
            q = q\<lparr>tail := tail q + 1\<rparr>;
            q = (if int (tail q) = max_cells q then q\<lparr>tail := 0\<rparr> else q);
            q = q\<lparr>cells_used := cells_used q + 1\<rparr>
        in (0, q))"

definition dequeue :: "queue \<Rightarrow> int \<times> queue" where
  "dequeue q =
     (if cells_used q \<le> 0 then (-1, q\<lparr>cells_used := 0\<rparr>)
      else
        let h = head q;
            q = q\<lparr>head := head q + 1\<rparr>;
            q = (if int (head q) = max_cells q then q\<lparr>head := 0\<rparr> else q);
            q = q\<lparr>cells_used := cells_used q - 1\<rparr>
        in (base q ! h, q))"

definition peek :: "queue \<Rightarrow> int \<times> queue" where
  "peek q =
     (if cells_used q \<le> 0 then (-1, q\<lparr>cells_used := 0\<rparr>)
      else (base q ! head q, q))"

section \<open>The state table of state\_table.c\<close>

type_synonym byte = "8 word"

definition NUMBER_OF_CUBES :: nat where "NUMBER_OF_CUBES = 3674160"
definition SIZE_OF_CUBE :: nat where "SIZE_OF_CUBE = 5"

text \<open>
  The table is the block of \<open>NUMBER_OF_CUBES * SIZE_OF_CUBE\<close> bytes that
  \<open>make_state_table\<close> allocates, a list of that length; every index the functions
  below compute for a slot \<open>i < NUMBER_OF_CUBES\<close> lies inside it.
\<close>

definition make_state_table :: "byte list" where
  "make_state_table = replicate (NUMBER_OF_CUBES * SIZE_OF_CUBE) 0"

text \<open>
  \<open>fwrite(state_table, SIZE_OF_CUBE, NUMBER_OF_CUBES, file)\<close>: the bytes that reach the
  file when it could be opened. When \<open>fopen\<close> fails the function goes on to
  \<open>fclose(NULL)\<close>, which is undefined.
\<close>

definition write_state_table :: "bool \<Rightarrow> byte list \<Rightarrow> byte list option" where
  "write_state_table opened state_table =
     (if opened then Some (take (SIZE_OF_CUBE * NUMBER_OF_CUBES) state_table) else None)"

text \<open>
  The four bytes of a cube, \<open>(unsigned char) (cube >> 8 * k)\<close>, and the \<open>int\<close> read back
  from four bytes, \<open>byte3 << 24 | byte2 << 16 | byte1 << 8 | byte0\<close>, wrapped to 32 bits
  in two's complement.
\<close>

definition cube_byte :: "nat \<Rightarrow> int \<Rightarrow> byte" where
  "cube_byte k cube = word_of_int (drop_bit (8 * k) cube)"

definition cube_of_bytes :: "byte \<Rightarrow> byte \<Rightarrow> byte \<Rightarrow> byte \<Rightarrow> int" where
  "cube_of_bytes byte3 byte2 byte1 byte0 =
     signed_take_bit 31
       (push_bit 24 (uint byte3) OR push_bit 16 (uint byte2) OR push_bit 8 (uint byte1) OR uint byte0)"

definition cube_at :: "byte list \<Rightarrow> nat \<Rightarrow> int" where
  "cube_at state_table i =
     cube_of_bytes (state_table ! (i * 5)) (state_table ! (i * 5 + 1))
       (state_table ! (i * 5 + 2)) (state_table ! (i * 5 + 3))"

text \<open>
  \<open>find_index\<close>: the loop over the slots. Leaving the loop at \<open>i = NUMBER_OF_CUBES\<close>
  reaches the end of the function with no \<open>return\<close>: the caller uses a value that
  does not exist, \<open>None\<close>.
\<close>

function find_index_loop :: "byte list \<Rightarrow> byte \<Rightarrow> byte \<Rightarrow> byte \<Rightarrow> byte \<Rightarrow> nat \<Rightarrow> int option" where
  "find_index_loop state_table byte3 byte2 byte1 byte0 i =
     (if i < NUMBER_OF_CUBES then
        (let byte_index = i * 5 in
         if state_table ! byte_index = 0 \<and> state_table ! (byte_index + 1) = 0 \<and>
            state_table ! (byte_index + 2) = 0 \<and> state_table ! (byte_index + 3) = 0
         then Some (int i)
         else if state_table ! byte_index < byte3
           then find_index_loop state_table byte3 byte2 byte1 byte0 (i + 1)
         else if state_table ! byte_index > byte3 then Some (int i)
         else if state_table ! (byte_index + 1) < byte2
           then find_index_loop state_table byte3 byte2 byte1 byte0 (i + 1)
         else if state_table ! (byte_index + 1) > byte2 then Some (int i)
         else if state_table ! (byte_index + 2) < byte1
           then find_index_loop state_table byte3 byte2 byte1 byte0 (i + 1)
         else if state_table ! (byte_index + 2) > byte1 then Some (int i)
         else if state_table ! (byte_index + 3) < byte0
           then find_index_loop state_table byte3 byte2 byte1 byte0 (i + 1)
         else if state_table ! (byte_index + 3) > byte0 then Some (int i)
         else Some (- 1))
      else None)"
  by pat_completeness auto
termination
  by (relation "measure (\<lambda>(t, b3, b2, b1, b0, i). NUMBER_OF_CUBES - i)") auto

declare find_index_loop.simps [simp del]

definition find_index :: "byte list \<Rightarrow> int \<Rightarrow> int option" where
  "find_index state_table cube =
     find_index_loop state_table (cube_byte 3 cube) (cube_byte 2 cube) (cube_byte 1 cube)
       (cube_byte 0 cube) 0"

text \<open>
  \<open>shift_data_up\<close>: the inner loop copies the five bytes of one slot into the next.
  \<open>add_state\<close> calls it with the slot \<open>find_index\<close> returned, which is not negative,
  so that \<open>i\<close> is not negative inside the loop.
\<close>

function shift_bytes :: "byte list \<Rightarrow> nat \<Rightarrow> nat \<Rightarrow> byte list" where
  "shift_bytes state_table this_index j =
     (if j < 5
      then shift_bytes (state_table[this_index + 5 := state_table ! this_index]) (this_index + 1) (j + 1)
      else state_table)"
  by pat_completeness auto
termination
  by (relation "measure (\<lambda>(t, k, j). 5 - j)") auto

declare shift_bytes.simps [simp del]

function shift_loop :: "byte list \<Rightarrow> int \<Rightarrow> int \<Rightarrow> byte list" where
  "shift_loop state_table index i =
     (if i \<ge> index
      then shift_loop (shift_bytes state_table (nat i * 5) 0) index (i - 1)
      else state_table)"
  by pat_completeness auto
termination
  by (relation "measure (\<lambda>(t, index, i). nat (i - index + 1))") auto

declare shift_loop.simps [simp del]

definition shift_data_up :: "byte list \<Rightarrow> int \<Rightarrow> byte list" where
  "shift_data_up state_table index = shift_loop state_table index (int NUMBER_OF_CUBES - 2)"

text \<open>\<open>add_state\<close> returns its \<open>int\<close> and the table it leaves.\<close>

definition add_state :: "byte list \<Rightarrow> int \<Rightarrow> byte \<Rightarrow> (int \<times> byte list) option" where
  "add_state state_table cube turn = do {
     cube_index \<leftarrow> find_index state_table cube;
     if cube_index = - 1 then Some (0, state_table)
     else
       let state_table = shift_data_up state_table cube_index;
           byte0 = cube_byte 0 cube;
           byte1 = cube_byte 1 cube;
           byte2 = cube_byte 2 cube;
           byte3 = cube_byte 3 cube;
           insert_index = nat cube_index * 5;
           state_table = state_table[insert_index := byte3];
           state_table = state_table[insert_index + 1 := byte2];
           state_table = state_table[insert_index + 2 := byte1];
           state_table = state_table[insert_index + 3 := byte0];
           state_table = state_table[insert_index + 4 := turn]
       in Some (1, state_table)
   }"

text \<open>
  \<open>get_turn\<close>: the \<open>do ... while (max >= min)\<close> loop. (\<open>min_i\<close> and
  \<open>max_i\<close> are the source's \<open>min\<close> and \<open>max\<close>.) The result is a \<open>char\<close>, taken
  as a signed byte (as gcc has it on the author's platform), so that \<open>-1\<close> is the
  byte \<open>0xFF\<close>.
\<close>

function get_turn_loop :: "byte list \<Rightarrow> int \<Rightarrow> int \<Rightarrow> int \<Rightarrow> byte" where
  "get_turn_loop state_table cube min_i max_i =
     (let middle = min_i + ((max_i - min_i) sdiv 2);
          this_cube = cube_at state_table (nat middle)
      in if this_cube < cube
           then (if max_i \<ge> middle + 1 then get_turn_loop state_table cube (middle + 1) max_i else - 1)
         else if this_cube > cube
           then (if middle - 1 \<ge> min_i then get_turn_loop state_table cube min_i (middle - 1) else - 1)
         else state_table ! (nat middle * 5 + 4))"
  by pat_completeness auto
termination
proof (relation "measure (\<lambda>(t, c, lo, hi). nat (hi - lo + 1))", goal_cases)
  case 1
  show ?case by simp
next
  case (2 t c lo hi middle this_cube)
  then show ?case by (cases "lo \<le> hi") (auto simp: signed_divide_int_def sgn_if)
next
  case (3 t c lo hi middle this_cube)
  then show ?case by (cases "lo \<le> hi") (auto simp: signed_divide_int_def sgn_if)
qed

declare get_turn_loop.simps [simp del]

definition get_turn :: "byte list \<Rightarrow> int \<Rightarrow> byte" where
  "get_turn state_table cube = get_turn_loop state_table cube 0 (int NUMBER_OF_CUBES - 1)"

text \<open>
  \<open>solve_cube\<close> returns \<open>NULL\<close> or the 15 bytes of \<open>turn_sequence\<close>; storing a turn at
  \<open>count \<ge> 15\<close> writes past the buffer and is undefined.
\<close>

datatype solution = Null | Turns "byte list"

definition perform_turn :: "byte \<Rightarrow> int \<Rightarrow> int option" where
  "perform_turn this_turn cube =
     (if this_turn = 0 then Some cube
      else if this_turn = 1 then frontCC cube
      else if this_turn = 2 then frontC cube
      else if this_turn = 3 then leftCC cube
      else if this_turn = 4 then leftC cube
      else if this_turn = 5 then topCC cube
      else if this_turn = 6 then topC cube
      else Some cube)"

function solve_loop :: "byte list \<Rightarrow> int \<Rightarrow> byte list \<Rightarrow> nat \<Rightarrow> solution option" where
  "solve_loop state_table cube turn_sequence count =
     (let this_turn = get_turn state_table cube in
      if this_turn = - 1 then Some Null
      else if count \<ge> length turn_sequence then None
      else
        let turn_sequence = turn_sequence[count := this_turn] in
        case perform_turn this_turn cube of
          None \<Rightarrow> None
        | Some cube \<Rightarrow>
            if this_turn \<noteq> 0 then solve_loop state_table cube turn_sequence (count + 1)
            else Some (Turns turn_sequence))"
  by pat_completeness auto
termination
  by (relation "measure (\<lambda>(t, c, ts, n). length ts - n)") auto

declare solve_loop.simps [simp del]

definition solve_cube :: "int \<Rightarrow> byte list \<Rightarrow> solution option" where
  "solve_cube cube state_table = solve_loop state_table cube (replicate 15 0) 0"

text \<open>The turns a caller reads from the returned buffer: the bytes before the first 0.\<close>

definition turns_read :: "byte list \<Rightarrow> byte list" where
  "turns_read turn_sequence = takeWhile (\<lambda>b. b \<noteq> 0) turn_sequence"

subsection \<open>The build loop of fill\_state\_table\<close>

record fill_state =
  fqueue :: queue
  ftable :: "byte list"
  fcount :: int

text \<open>One \<open>if (add_state(...)) { enqueue(...); count++; }\<close> block (the print left out).\<close>

definition discover :: "fill_state \<Rightarrow> int \<Rightarrow> byte \<Rightarrow> fill_state option" where
  "discover s cube turn = do {
     (added, state_table) \<leftarrow> add_state (ftable s) cube turn;
     if added \<noteq> 0
     then let (r, q) = enqueue (fqueue s) cube
          in Some \<lparr>fqueue = q, ftable = state_table, fcount = fcount s + 1\<rparr>
     else Some (s\<lparr>ftable := state_table\<rparr>)
   }"

text \<open>The body of the \<open>while\<close> loop.\<close>

definition fill_body :: "fill_state \<Rightarrow> fill_state option" where
  "fill_body s = do {
     let (this_cube, q) = dequeue (fqueue s);
     let s = s\<lparr>fqueue := q\<rparr>;
     front_C \<leftarrow> frontC this_cube;
     front_CC \<leftarrow> frontCC this_cube;
     left_C \<leftarrow> leftC this_cube;
     left_CC \<leftarrow> leftCC this_cube;
     top_C \<leftarrow> topC this_cube;
     top_CC \<leftarrow> topCC this_cube;
     s \<leftarrow> discover s front_C 1;
     s \<leftarrow> discover s front_CC 2;
     s \<leftarrow> discover s left_C 3;
     s \<leftarrow> discover s left_CC 4;
     s \<leftarrow> discover s top_C 5;
     discover s top_CC 6
   }"

text \<open>The state before the loop: the queue holds the solved cube, the table is as given.\<close>

definition fill_init :: "byte list \<Rightarrow> fill_state" where
  "fill_init state_table =
     \<lparr>fqueue = snd (enqueue (createQueue (int NUMBER_OF_CUBES)) SOLVED_CUBE),
      ftable = state_table, fcount = 0\<rparr>"

text \<open>
  The loop \<open>while (peek(queue) != 0)\<close>, with fuel for the number of tests of the loop
  condition: it has left the loop, has met undefined behaviour in the body, or is
  still running in the state it has reached.
\<close>

datatype run = Returned fill_state | Undefined | Running fill_state

fun fill_loop :: "nat \<Rightarrow> fill_state \<Rightarrow> run" where
  "fill_loop 0 s = Running s"
| "fill_loop (Suc n) s =
     (let (p, q) = peek (fqueue s); s = s\<lparr>fqueue := q\<rparr>
      in if p \<noteq> 0
         then (case fill_body s of None \<Rightarrow> Undefined | Some s' \<Rightarrow> fill_loop n s')
         else Returned s)"

definition fill_state_table :: "nat \<Rightarrow> byte list \<Rightarrow> run" where
  "fill_state_table fuel state_table = fill_loop fuel (fill_init state_table)"

section \<open>Reachable cubes\<close>

text \<open>
  The reachable state space: the solved cube and everything the six turns make of a
  reachable cube.
\<close>

inductive reachable :: "int \<Rightarrow> bool" where
  reachable_solved: "reachable SOLVED_CUBE"
| reachable_turn: "reachable c \<Longrightarrow> turn < 6 \<Longrightarrow> rotate_cube c turn = Some c' \<Longrightarrow> reachable c'"

text \<open>The configuration space of the encoding: seven base-21 digits.\<close>

definition config_space :: "int set" where
  "config_space = {0 ..< 21 ^ 7}"

text \<open>The partner of a turn: front CC with front C, left CC with left C, top CC with top C.\<close>

definition partner :: "nat \<Rightarrow> nat" where
  "partner turn = (if even turn then turn + 1 else turn - 1)"

section \<open>Base-21 digits and the turns\<close>

lemma sdiv_nonneg: "0 \<le> a \<Longrightarrow> 0 < b \<Longrightarrow> (a::int) sdiv b = a div b"
  by (simp add: signed_divide_int_def sgn_if)

lemma smod_nonneg: "0 \<le> a \<Longrightarrow> 0 < b \<Longrightarrow> (a::int) smod b = a mod b"
  by (simp add: signed_modulo_int_def sgn_if)

text \<open>The piece states of a cube, piece 0 first, and the cube of a list of states.\<close>

fun undigits :: "int list \<Rightarrow> int" where
  "undigits [] = 0"
| "undigits (d # ds) = d + 21 * undigits ds"

fun digits :: "nat \<Rightarrow> int \<Rightarrow> int list" where
  "digits 0 c = []"
| "digits (Suc n) c = (c mod 21) # digits n (c div 21)"

definition dig :: "int \<Rightarrow> bool" where
  "dig s = (0 \<le> s \<and> s < 21)"

definition perm_state :: "nat \<Rightarrow> int \<Rightarrow> int" where
  "perm_state turn s = turn_table ! turn ! nat s"

lemma length_digits [simp]: "length (digits n c) = n"
  by (induction n arbitrary: c) auto

lemma digits_dig: "d \<in> set (digits n c) \<Longrightarrow> dig d"
  by (induction n arbitrary: c) (auto simp: dig_def)

lemma undigits_bounds: "\<forall>d\<in>set ds. dig d \<Longrightarrow> 0 \<le> undigits ds \<and> undigits ds < 21 ^ length ds"
  by (induction ds) (auto simp: dig_def)

lemma digits_undigits: "\<forall>d\<in>set ds. dig d \<Longrightarrow> digits (length ds) (undigits ds) = ds"
  by (induction ds) (auto simp: dig_def)

lemma div21_less: "c < 21 * y \<Longrightarrow> c div 21 < (y::int)"
  by arith

lemma undigits_digits: "0 \<le> c \<Longrightarrow> c < 21 ^ n \<Longrightarrow> undigits (digits n c) = c"
proof (induction n arbitrary: c)
  case 0
  then show ?case by simp
next
  case (Suc n)
  have "c div 21 < 21 ^ n" using Suc.prems by (simp add: div21_less)
  moreover have "0 \<le> c div 21" using Suc.prems by simp
  ultimately show ?case using Suc.IH [of "c div 21"] by simp
qed

lemma digits_nth: "k < n \<Longrightarrow> digits n c ! k = (c div 21 ^ k) mod 21"
proof (induction n arbitrary: c k)
  case 0
  then show ?case by simp
next
  case (Suc n)
  show ?case
  proof (cases k)
    case 0
    then show ?thesis by simp
  next
    case (Suc j)
    then show ?thesis using Suc.prems Suc.IH [of j "c div 21"]
      by (simp add: zdiv_zmult2_eq)
  qed
qed

lemma mod_div_digit: "0 < b \<Longrightarrow> ((c::int) mod (b * 21)) div b = (c div b) mod 21"
  by (simp add: zmod_zmult2_eq)

lemma turn_entry_dig: "turn < 6 \<Longrightarrow> dig s \<Longrightarrow> turn_entry turn s = Some (perm_state turn s)"
  by (simp add: turn_entry_def dig_def perm_state_def)

lemma dig_cases: "dig s \<longleftrightarrow> s \<in> set [0..20]"
  by (auto simp: dig_def)

lemma turn_cases: "turn < 6 \<longleftrightarrow> turn \<in> set [0..<6]"
  by auto

lemma perm_state_all:
  "list_all (\<lambda>t. list_all (\<lambda>s. dig (perm_state t s) \<and> perm_state (partner t) (perm_state t s) = s)
     [0..20]) [0..<6]"
  by code_simp

lemma perm_state_dig: "turn < 6 \<Longrightarrow> dig s \<Longrightarrow> dig (perm_state turn s)"
  using perm_state_all unfolding dig_cases turn_cases list_all_iff by blast

lemma perm_state_partner:
  "turn < 6 \<Longrightarrow> dig s \<Longrightarrow> perm_state (partner turn) (perm_state turn s) = s"
  using perm_state_all unfolding dig_cases turn_cases list_all_iff by blast

lemma partner_less: "turn < 6 \<Longrightarrow> partner turn < 6"
  unfolding turn_cases by (auto simp: partner_def)

lemma partner_partner: "partner (partner turn) = turn"
  by (auto simp: partner_def)

lemma list7: "length xs = 7 \<Longrightarrow> xs = [xs ! 0, xs ! 1, xs ! 2, xs ! 3, xs ! 4, xs ! 5, xs ! 6]"
  by (auto simp: eval_nat_numeral length_Suc_conv)

text \<open>On the configuration space a turn maps the seven piece states through its row.\<close>

lemma rotate_digits:
  assumes c: "c \<in> config_space" and t: "turn < 6"
  shows "rotate_cube c turn = Some (undigits (map (perm_state turn) (digits 7 c)))"
proof -
  have c0: "0 \<le> c" and c7: "c < 21 ^ 7" using c by (auto simp: config_space_def)
  have s6: "c sdiv c21_6 = digits 7 c ! 6"
  proof -
    have "c div 85766121 < 21 \<and> 0 \<le> c div 85766121"
      using c0 c7 zdiv_mono1 [of c 1801088540 85766121] by (simp add: pos_imp_zdiv_nonneg_iff)
    then show ?thesis using c0 by (simp add: digits_nth sdiv_nonneg c21_6_def)
  qed
  have m: "\<And>b. 0 < b \<Longrightarrow> (c smod (b * 21)) sdiv b = (c div b) mod 21"
    using c0 by (simp add: smod_nonneg sdiv_nonneg mod_div_digit)
  have s5: "(c smod c21_6) sdiv c21_5 = digits 7 c ! 5"
    using m [of "21 ^ 5"] by (simp add: digits_nth c21_6_def c21_5_def)
  have s4: "(c smod c21_5) sdiv c21_4 = digits 7 c ! 4"
    using m [of "21 ^ 4"] by (simp add: digits_nth c21_5_def c21_4_def)
  have s3: "(c smod c21_4) sdiv c21_3 = digits 7 c ! 3"
    using m [of "21 ^ 3"] by (simp add: digits_nth c21_4_def c21_3_def)
  have s2: "(c smod c21_3) sdiv c21_2 = digits 7 c ! 2"
    using m [of "21 ^ 2"] by (simp add: digits_nth c21_3_def c21_2_def)
  have s1: "(c smod c21_2) sdiv c21_1 = digits 7 c ! 1"
    using m [of "21"] by (simp add: digits_nth c21_2_def c21_1_def)
  have s0: "c smod c21_1 = digits 7 c ! 0"
    using c0 by (simp add: digits_nth smod_nonneg c21_1_def)
  have d: "\<And>k. k < 7 \<Longrightarrow> dig (digits 7 c ! k)"
    by (rule digits_dig [of _ 7 c]) simp
  have ds: "digits 7 c = [digits 7 c ! 0, digits 7 c ! 1, digits 7 c ! 2, digits 7 c ! 3,
      digits 7 c ! 4, digits 7 c ! 5, digits 7 c ! 6]"
    by (rule list7) simp
  have r: "rotate_cube c turn = Some (undigits (map (perm_state turn)
      [digits 7 c ! 0, digits 7 c ! 1, digits 7 c ! 2, digits 7 c ! 3,
       digits 7 c ! 4, digits 7 c ! 5, digits 7 c ! 6]))"
    unfolding rotate_cube_def s6 s5 s4 s3 s2 s1 s0
    by (simp add: turn_entry_dig [OF t d] c21_6_def c21_5_def c21_4_def c21_3_def c21_2_def
        c21_1_def)
  show ?thesis by (subst ds) (rule r)
qed

lemma rotate_in_space:
  assumes "c \<in> config_space" "turn < 6" "rotate_cube c turn = Some c'"
  shows "c' \<in> config_space \<and> digits 7 c' = map (perm_state turn) (digits 7 c)"
proof -
  let ?ds = "map (perm_state turn) (digits 7 c)"
  have c': "c' = undigits ?ds" using assms rotate_digits by simp
  have d: "\<forall>d\<in>set ?ds. dig d" using assms(2) by (auto simp: perm_state_dig digits_dig)
  have "digits (length ?ds) (undigits ?ds) = ?ds" using d by (rule digits_undigits)
  moreover have "0 \<le> undigits ?ds \<and> undigits ?ds < 21 ^ length ?ds"
    using d by (rule undigits_bounds)
  ultimately show ?thesis using c' by (simp add: config_space_def)
qed

lemma rotate_partner:
  assumes c: "c \<in> config_space" and t: "turn < 6"
  shows "rotate_cube c turn \<bind> (\<lambda>c'. rotate_cube c' (partner turn)) = Some c"
proof -
  obtain c' where r: "rotate_cube c turn = Some c'" using rotate_digits [OF c t] by simp
  have c': "c' \<in> config_space" and d: "digits 7 c' = map (perm_state turn) (digits 7 c)"
    using rotate_in_space [OF c t r] by simp_all
  have "rotate_cube c' (partner turn) =
      Some (undigits (map (perm_state (partner turn)) (digits 7 c')))"
    using c' t by (simp add: rotate_digits partner_less)
  also have "map (perm_state (partner turn)) (digits 7 c') = digits 7 c"
    unfolding d using t by (simp add: map_idI perm_state_partner digits_dig)
  also have "undigits (digits 7 c) = c" using c by (simp add: undigits_digits config_space_def)
  finally show ?thesis using r by simp
qed

lemma solved_in_space: "SOLVED_CUBE \<in> config_space"
  by (simp add: SOLVED_CUBE_def config_space_def)

lemma reachable_in_space: "reachable c \<Longrightarrow> c \<in> config_space"
  by (induction rule: reachable.induct) (auto simp: solved_in_space dest: rotate_in_space)

lemma rotate_inj:
  assumes t: "turn < 6" and x: "x \<in> config_space" and y: "y \<in> config_space"
    and e: "rotate_cube x turn = rotate_cube y turn"
  shows "x = y"
proof -
  have "Some x = rotate_cube x turn \<bind> (\<lambda>c'. rotate_cube c' (partner turn))"
    using rotate_partner [OF x t] by simp
  also have "\<dots> = rotate_cube y turn \<bind> (\<lambda>c'. rotate_cube c' (partner turn))"
    by (simp only: e)
  also have "\<dots> = Some y" by (rule rotate_partner [OF y t])
  finally show ?thesis by simp
qed

lemma rotate_total:
  assumes t: "turn < 6" and x: "x \<in> config_space"
  shows "\<exists>c'\<in>config_space. rotate_cube x turn = Some c'"
proof -
  obtain c' where r: "rotate_cube x turn = Some c'" using rotate_digits [OF x t] by simp
  have "c' \<in> config_space" using rotate_in_space [OF x t r] by simp
  then show ?thesis using r by blast
qed

lemma rotate_onto:
  assumes t: "turn < 6" and c: "c \<in> config_space"
  shows "\<exists>x\<in>config_space. rotate_cube x turn = Some c"
proof -
  have pt: "partner turn < 6" using t by (rule partner_less)
  obtain c' where c': "c' \<in> config_space" and r: "rotate_cube c (partner turn) = Some c'"
    using rotate_total [OF pt c] by blast
  have "rotate_cube c (partner turn) \<bind> (\<lambda>c'. rotate_cube c' (partner (partner turn))) = Some c"
    by (rule rotate_partner [OF c pt])
  then have "rotate_cube c' turn = Some c" by (simp add: r partner_partner)
  then show ?thesis using c' by blast
qed

lemma rotate_bij:
  assumes t: "turn < 6"
  shows "bij_betw (\<lambda>c. rotate_cube c turn) config_space (Some ` config_space)"
  unfolding bij_betw_def
proof
  show "inj_on (\<lambda>c. rotate_cube c turn) config_space"
    by (rule inj_onI) (rule rotate_inj [OF t])
  show "(\<lambda>c. rotate_cube c turn) ` config_space = Some ` config_space"
  proof (intro equalityI subsetI)
    fix y assume "y \<in> (\<lambda>c. rotate_cube c turn) ` config_space"
    then obtain x where "x \<in> config_space" "y = rotate_cube x turn" by blast
    then show "y \<in> Some ` config_space" using rotate_total [OF t, of x] by auto
  next
    fix y assume "y \<in> Some ` config_space"
    then obtain c where c: "c \<in> config_space" and y: "y = Some c" by blast
    obtain x where x: "x \<in> config_space" and r: "rotate_cube x turn = Some c"
      using rotate_onto [OF t c] by blast
    show "y \<in> (\<lambda>c. rotate_cube c turn) ` config_space"
      by (rule image_eqI [of _ _ x]) (simp_all add: x r y)
  qed
qed

lemma turn_funs:
  "frontCC = (\<lambda>c. rotate_cube c 0)" "frontC = (\<lambda>c. rotate_cube c 1)"
  "leftCC = (\<lambda>c. rotate_cube c 2)" "leftC = (\<lambda>c. rotate_cube c 3)"
  "topCC = (\<lambda>c. rotate_cube c 4)" "topC = (\<lambda>c. rotate_cube c 5)"
  by (auto simp: frontCC_def frontC_def leftCC_def leftC_def topCC_def topC_def)

lemma partner_simps:
  "partner 0 = 1" "partner 1 = 0" "partner (Suc 0) = 0" "partner 2 = 3" "partner 3 = 2" "partner 4 = 5" "partner 5 = 4"
  by (simp_all add: partner_def)

lemma turn_entry_partner:
  assumes "turn < 6" "0 \<le> s" "s < 21"
  shows "(turn_entry turn s \<bind> turn_entry (partner turn)) = Some s"
proof -
  have d: "dig s" using assms by (simp add: dig_def)
  show ?thesis using assms(1) d
    by (simp add: turn_entry_dig perm_state_dig perm_state_partner partner_less)
qed

text \<open>
  C4. For every reachable cube, a turn followed by its partner (front C with front CC,
  left C with left CC, top C with top CC, in either order) gives the cube back; the
  rows of \<open>turn_table\<close> of a turn and of its partner are inverse to each other on the
  21 piece states; and every turn is a bijection of the configuration space.
\<close>

theorem move_invertibility:
  "(reachable c \<longrightarrow>
      (frontC c \<bind> frontCC) = Some c \<and> (frontCC c \<bind> frontC) = Some c \<and>
      (leftC c \<bind> leftCC) = Some c \<and> (leftCC c \<bind> leftC) = Some c \<and>
      (topC c \<bind> topCC) = Some c \<and> (topCC c \<bind> topC) = Some c) \<and>
   (turn < 6 \<and> 0 \<le> s \<and> s < 21 \<longrightarrow>
      (turn_entry turn s \<bind> turn_entry (partner turn)) = Some s) \<and>
   (turn < 6 \<longrightarrow> bij_betw (\<lambda>c. rotate_cube c turn) config_space (Some ` config_space))"
proof (intro conjI impI)
  assume "reachable c"
  then have c: "c \<in> config_space" by (rule reachable_in_space)
  show "(frontC c \<bind> frontCC) = Some c"
    using rotate_partner [OF c, of 1] by (simp add: turn_funs partner_simps)
  show "(frontCC c \<bind> frontC) = Some c"
    using rotate_partner [OF c, of 0] by (simp add: turn_funs partner_simps)
  show "(leftC c \<bind> leftCC) = Some c"
    using rotate_partner [OF c, of 3] by (simp add: turn_funs partner_simps)
  show "(leftCC c \<bind> leftC) = Some c"
    using rotate_partner [OF c, of 2] by (simp add: turn_funs partner_simps)
  show "(topC c \<bind> topCC) = Some c"
    using rotate_partner [OF c, of 5] by (simp add: turn_funs partner_simps)
  show "(topCC c \<bind> topC) = Some c"
    using rotate_partner [OF c, of 4] by (simp add: turn_funs partner_simps)
next
  assume "turn < 6 \<and> 0 \<le> s \<and> s < 21"
  then show "(turn_entry turn s \<bind> turn_entry (partner turn)) = Some s"
    by (simp add: turn_entry_partner)
next
  assume "turn < 6"
  then show "bij_betw (\<lambda>c. rotate_cube c turn) config_space (Some ` config_space)"
    by (rule rotate_bij)
qed


lemma frontCC_1: "frontCC 1607621429 = Some SOLVED_CUBE"
  by code_simp


theorem move_invertibility_witness:
  "reachable SOLVED_CUBE \<and> (frontC SOLVED_CUBE \<bind> frontCC) = Some SOLVED_CUBE \<and>
   (5 < (6::nat) \<and> (0::int) \<le> 20 \<and> (20::int) < 21) \<and>
   (turn_entry 5 20 \<bind> turn_entry (partner 5)) = Some 20 \<and>
   bij_betw (\<lambda>c. rotate_cube c 5) config_space (Some ` config_space)"
  using move_invertibility [of SOLVED_CUBE 5 20] reachable_solved by simp

section \<open>Bytes of a cube\<close>

lemma uint_cube_byte: "uint (cube_byte k c) = (c div 2 ^ (8 * k)) mod 256"
  by (simp add: cube_byte_def uint_word_of_int drop_bit_eq_div take_bit_eq_mod)

lemma or_push_bit:
  assumes "0 \<le> x" "x < 2 ^ n"
  shows "push_bit n a OR x = a * 2 ^ n + (x::int)"
proof -
  have x: "take_bit n x = x" using assms by (simp add: take_bit_int_eq_self)
  have "push_bit n a AND take_bit n x = 0"
    by (rule bit_eqI) (auto simp: bit_simps)
  then have "push_bit n a + take_bit n x = push_bit n a OR take_bit n x"
    by (rule disjunctive_add_eq_or)
  then show ?thesis by (simp add: x push_bit_eq_mult)
qed

lemma byte_bounds: "0 \<le> uint (b::byte) \<and> uint b < 256"
  using uint_bounded [of b] by simp

lemma cube_of_bytes_plus:
  "cube_of_bytes b3 b2 b1 b0 =
     signed_take_bit 31 (uint b3 * 16777216 + uint b2 * 65536 + uint b1 * 256 + uint b0)"
proof -
  have 1: "push_bit 8 (uint b1) OR uint b0 = uint b1 * 2 ^ 8 + uint b0"
    using byte_bounds [of b0] by (intro or_push_bit) simp_all
  have 2: "push_bit 16 (uint b2) OR (uint b1 * 2 ^ 8 + uint b0) =
      uint b2 * 2 ^ 16 + (uint b1 * 2 ^ 8 + uint b0)"
    using byte_bounds [of b0] byte_bounds [of b1] by (intro or_push_bit) simp_all
  have 3: "push_bit 24 (uint b3) OR (uint b2 * 2 ^ 16 + (uint b1 * 2 ^ 8 + uint b0)) =
      uint b3 * 2 ^ 24 + (uint b2 * 2 ^ 16 + (uint b1 * 2 ^ 8 + uint b0))"
    using byte_bounds [of b0] byte_bounds [of b1] byte_bounds [of b2]
    by (intro or_push_bit) simp_all
  show ?thesis unfolding cube_of_bytes_def 1 2 3 by (simp add: add.assoc)
qed

lemma mod_split: "0 < b \<Longrightarrow> 0 < m \<Longrightarrow> (c::int) mod (b * m) = (c div b) mod m * b + c mod b"
  by (simp add: zmod_zmult2_eq)

lemma byte_decomposition:
  "(c::int) mod 4294967296 = (c div 16777216) mod 256 * 16777216 + (c div 65536) mod 256 * 65536 +
     (c div 256) mod 256 * 256 + c mod 256"
proof -
  have 1: "c mod 4294967296 = (c div 16777216) mod 256 * 16777216 + c mod 16777216"
    using mod_split [of 16777216 256 c] by simp
  have 2: "c mod 16777216 = (c div 65536) mod 256 * 65536 + c mod 65536"
    using mod_split [of 65536 256 c] by simp
  have 3: "c mod 65536 = (c div 256) mod 256 * 256 + c mod 256"
    using mod_split [of 256 256 c] by simp
  show ?thesis by (simp only: 1 2 3 add.assoc)
qed

lemma uint_cube_bytes:
  "uint (cube_byte 3 c) = (c div 16777216) mod 256" "uint (cube_byte 2 c) = (c div 65536) mod 256"
  "uint (cube_byte 1 c) = (c div 256) mod 256" "uint (cube_byte 0 c) = c mod 256"
  by (simp_all add: uint_cube_byte)

lemma cube_of_bytes_cube_byte:
  assumes "- (2 ^ 31) \<le> c" "c < 2 ^ 31"
  shows "cube_of_bytes (cube_byte 3 c) (cube_byte 2 c) (cube_byte 1 c) (cube_byte 0 c) = c"
proof -
  have "cube_of_bytes (cube_byte 3 c) (cube_byte 2 c) (cube_byte 1 c) (cube_byte 0 c) =
      signed_take_bit 31 (c mod 4294967296)"
    unfolding cube_of_bytes_plus by (simp only: uint_cube_bytes byte_decomposition [symmetric])
  also have "\<dots> = signed_take_bit 31 (take_bit 32 c)" by (simp add: take_bit_eq_mod)
  also have "\<dots> = signed_take_bit 31 c" by (simp add: signed_take_bit_take_bit)
  also have "\<dots> = c" using assms by (simp add: signed_take_bit_int_eq_self)
  finally show ?thesis .
qed
lemma lex4:
  fixes x0 x1 x2 x3 y0 y1 y2 y3 :: int
  assumes "0 \<le> x0" "x0 < 256" "0 \<le> x1" "x1 < 256" "0 \<le> x2" "x2 < 256" "0 \<le> x3" "x3 < 256"
    "0 \<le> y0" "y0 < 256" "0 \<le> y1" "y1 < 256" "0 \<le> y2" "y2 < 256" "0 \<le> y3" "y3 < 256"
  shows "(x3 * 16777216 + x2 * 65536 + x1 * 256 + x0 < y3 * 16777216 + y2 * 65536 + y1 * 256 + y0) \<longleftrightarrow>
    (x3 < y3 \<or> (x3 = y3 \<and> (x2 < y2 \<or> (x2 = y2 \<and> (x1 < y1 \<or> (x1 = y1 \<and> x0 < y0))))))"
  using assms by auto

text \<open>The value of a cube in \<open>[0, 2 ^ 32)\<close> from the unsigned values of its four bytes.\<close>

lemma cube_from_bytes:
  assumes "0 \<le> a" "a < 4294967296"
  shows "a = uint (cube_byte 3 a) * 16777216 + uint (cube_byte 2 a) * 65536 +
     uint (cube_byte 1 a) * 256 + uint (cube_byte 0 a)"
proof -
  have e: "a mod 4294967296 = a" using assms by simp
  have "a mod 4294967296 = uint (cube_byte 3 a) * 16777216 + uint (cube_byte 2 a) * 65536 +
     uint (cube_byte 1 a) * 256 + uint (cube_byte 0 a)"
    by (simp only: uint_cube_bytes byte_decomposition)
  then show ?thesis by (simp only: e)
qed

text \<open>Comparing the bytes from the most significant down compares the cubes.\<close>

lemma bytes_less_iff:
  assumes "0 \<le> a" "a < 4294967296" "0 \<le> c" "c < 4294967296"
  shows "a < c \<longleftrightarrow>
    (cube_byte 3 a < cube_byte 3 c \<or> (cube_byte 3 a = cube_byte 3 c \<and>
      (cube_byte 2 a < cube_byte 2 c \<or> (cube_byte 2 a = cube_byte 2 c \<and>
        (cube_byte 1 a < cube_byte 1 c \<or> (cube_byte 1 a = cube_byte 1 c \<and>
          cube_byte 0 a < cube_byte 0 c))))))"
proof -
  have "a < c \<longleftrightarrow> uint (cube_byte 3 a) * 16777216 + uint (cube_byte 2 a) * 65536 +
     uint (cube_byte 1 a) * 256 + uint (cube_byte 0 a) < uint (cube_byte 3 c) * 16777216 + uint (cube_byte 2 c) * 65536 +
     uint (cube_byte 1 c) * 256 + uint (cube_byte 0 c)"
    using cube_from_bytes [OF assms(1,2)] cube_from_bytes [OF assms(3,4)] by simp
  also have "\<dots> \<longleftrightarrow> (uint (cube_byte 3 a) < uint (cube_byte 3 c) \<or> (uint (cube_byte 3 a) = uint (cube_byte 3 c) \<and>
      (uint (cube_byte 2 a) < uint (cube_byte 2 c) \<or> (uint (cube_byte 2 a) = uint (cube_byte 2 c) \<and>
        (uint (cube_byte 1 a) < uint (cube_byte 1 c) \<or> (uint (cube_byte 1 a) = uint (cube_byte 1 c) \<and>
          uint (cube_byte 0 a) < uint (cube_byte 0 c)))))))"
    by (intro lex4) (simp_all add: byte_bounds)
  finally show ?thesis by (simp add: word_less_def word_uint_eq_iff)
qed

lemma bytes_zero_iff:
  assumes "0 \<le> a" "a < 4294967296"
  shows "a = 0 \<longleftrightarrow> cube_byte 3 a = 0 \<and> cube_byte 2 a = 0 \<and> cube_byte 1 a = 0 \<and> cube_byte 0 a = 0"
proof
  assume "a = 0" then show "cube_byte 3 a = 0 \<and> cube_byte 2 a = 0 \<and> cube_byte 1 a = 0 \<and> cube_byte 0 a = 0"
    by (simp add: cube_byte_def)
next
  assume "cube_byte 3 a = 0 \<and> cube_byte 2 a = 0 \<and> cube_byte 1 a = 0 \<and> cube_byte 0 a = 0"
  then show "a = 0" using cube_from_bytes [OF assms] by simp
qed

lemma bytes_eq_iff:
  assumes "0 \<le> a" "a < 4294967296" "0 \<le> c" "c < 4294967296"
  shows "a = c \<longleftrightarrow> cube_byte 3 a = cube_byte 3 c \<and> cube_byte 2 a = cube_byte 2 c \<and>
     cube_byte 1 a = cube_byte 1 c \<and> cube_byte 0 a = cube_byte 0 c"
  using cube_from_bytes [OF assms(1,2)] cube_from_bytes [OF assms(3,4)] by auto

lemma if_chain:
  fixes x3 x2 x1 x0 y3 y2 y1 y0 :: "'a::linorder"
  shows "(if x3 < y3 then A else if y3 < x3 then B else if x2 < y2 then A else if y2 < x2 then B
          else if x1 < y1 then A else if y1 < x1 then B else if x0 < y0 then A
          else if y0 < x0 then B else C) =
   (if (x3 < y3 \<or> (x3 = y3 \<and> (x2 < y2 \<or> (x2 = y2 \<and> (x1 < y1 \<or> (x1 = y1 \<and> x0 < y0))))))
    then A
    else if (y3 < x3 \<or> (y3 = x3 \<and> (y2 < x2 \<or> (y2 = x2 \<and> (y1 < x1 \<or> (y1 = x1 \<and> y0 < x0))))))
    then B else C)"
  by (cases x3 y3 rule: linorder_cases; cases x2 y2 rule: linorder_cases;
      cases x1 y1 rule: linorder_cases; cases x0 y0 rule: linorder_cases; auto simp: less_not_sym)

text \<open>One test of the loop of \<open>find_index\<close> at a slot that holds a cube.\<close>

lemma find_index_step:
  assumes i: "i < NUMBER_OF_CUBES"
    and slot: "t ! (i * 5) = cube_byte 3 a" "t ! (i * 5 + 1) = cube_byte 2 a"
      "t ! (i * 5 + 2) = cube_byte 1 a" "t ! (i * 5 + 3) = cube_byte 0 a"
    and a: "0 < a" "a < 4294967296" and c: "0 \<le> c" "c < 4294967296"
  shows "find_index_loop t (cube_byte 3 c) (cube_byte 2 c) (cube_byte 1 c) (cube_byte 0 c) i =
     (if a < c then find_index_loop t (cube_byte 3 c) (cube_byte 2 c) (cube_byte 1 c) (cube_byte 0 c) (i + 1)
      else if c < a then Some (int i) else Some (- 1))"
proof -
  have a0: "0 \<le> a" using a by simp
  have nz: "\<not> (cube_byte 3 a = 0 \<and> cube_byte 2 a = 0 \<and> cube_byte 1 a = 0 \<and> cube_byte 0 a = 0)"
    using bytes_zero_iff [OF a0 a(2)] a(1) by simp
  have lt: "a < c \<longleftrightarrow>
    (cube_byte 3 a < cube_byte 3 c \<or> (cube_byte 3 a = cube_byte 3 c \<and>
      (cube_byte 2 a < cube_byte 2 c \<or> (cube_byte 2 a = cube_byte 2 c \<and>
        (cube_byte 1 a < cube_byte 1 c \<or> (cube_byte 1 a = cube_byte 1 c \<and>
          cube_byte 0 a < cube_byte 0 c))))))"
    by (rule bytes_less_iff [OF a0 a(2) c])
  have gt: "c < a \<longleftrightarrow>
    (cube_byte 3 c < cube_byte 3 a \<or> (cube_byte 3 c = cube_byte 3 a \<and>
      (cube_byte 2 c < cube_byte 2 a \<or> (cube_byte 2 c = cube_byte 2 a \<and>
        (cube_byte 1 c < cube_byte 1 a \<or> (cube_byte 1 c = cube_byte 1 a \<and>
          cube_byte 0 c < cube_byte 0 a))))))"
    by (rule bytes_less_iff [OF c a0 a(2)])
  show ?thesis
    by (subst find_index_loop.simps)
      (simp only: Let_def slot i nz if_True if_False if_chain lt [symmetric] gt [symmetric])
qed

section \<open>The table as a list of records\<close>

text \<open>
  A record is a cube and the turn stored with it. \<open>table_of rs\<close> is the table whose first
  slots hold the records \<open>rs\<close> and whose other slots are zero, as \<open>calloc\<close> left them.
\<close>

definition enc_record :: "int \<times> byte \<Rightarrow> byte list" where
  "enc_record r =
     [cube_byte 3 (fst r), cube_byte 2 (fst r), cube_byte 1 (fst r), cube_byte 0 (fst r), snd r]"

definition table_of :: "(int \<times> byte) list \<Rightarrow> byte list" where
  "table_of rs = concat (map enc_record rs) @ replicate ((NUMBER_OF_CUBES - length rs) * 5) 0"

lemma length_enc_record [simp]: "length (enc_record r) = 5"
  by (simp add: enc_record_def)

lemma length_concat_enc [simp]: "length (concat (map enc_record rs)) = length rs * 5"
  by (induction rs) auto

lemma nth_concat_enc:
  "i < length rs \<Longrightarrow> k < 5 \<Longrightarrow> concat (map enc_record rs) ! (i * 5 + k) = enc_record (rs ! i) ! k"
proof (induction rs arbitrary: i)
  case Nil
  then show ?case by simp
next
  case (Cons r rs)
  show ?case
  proof (cases i)
    case 0
    then show ?thesis using Cons.prems by (simp add: nth_append)
  next
    case (Suc j)
    then show ?thesis using Cons.prems Cons.IH [of j] by (simp add: nth_append)
  qed
qed

lemma length_table_of: "length rs \<le> NUMBER_OF_CUBES \<Longrightarrow> length (table_of rs) = NUMBER_OF_CUBES * 5"
  by (simp add: table_of_def algebra_simps)

lemma table_of_nth_record:
  "i < length rs \<Longrightarrow> k < 5 \<Longrightarrow> table_of rs ! (i * 5 + k) = enc_record (rs ! i) ! k"
  by (simp add: table_of_def nth_append nth_concat_enc)

lemma table_of_nth_zero:
  "length rs \<le> i \<Longrightarrow> i < NUMBER_OF_CUBES \<Longrightarrow> k < 5 \<Longrightarrow> table_of rs ! (i * 5 + k) = 0"
  by (simp add: table_of_def nth_append)
section \<open>Shifting and inserting\<close>

lemma shift_bytes_length [simp]: "length (shift_bytes t k 0) = length t"
  by (simp add: shift_bytes.simps)

lemma shift_bytes_nth:
  "k + 10 \<le> length t \<Longrightarrow> b < length t \<Longrightarrow>
   shift_bytes t k 0 ! b = (if k + 5 \<le> b \<and> b < k + 10 then t ! (b - 5) else t ! b)"
  by (simp add: shift_bytes.simps nth_list_update) (auto intro: arg_cong [where f = "nth t"])

lemma shift_loop_length [simp]: "length (shift_loop t index i) = length t"
  by (induction t index i rule: shift_loop.induct) (subst shift_loop.simps, simp)

lemma shift_loop_nth:
  "0 \<le> index \<Longrightarrow> (nat i + 2) * 5 \<le> length t \<Longrightarrow> b < length t \<Longrightarrow>
   shift_loop t index i ! b =
     (if index * 5 + 5 \<le> int b \<and> int b < i * 5 + 10 then t ! (b - 5) else t ! b)"
proof (induction t index i arbitrary: b rule: shift_loop.induct)
  case (1 t index i)
  show ?case
  proof (cases "i \<ge> index")
    case False
    then show ?thesis by (subst shift_loop.simps) auto
  next
    case True
    let ?t1 = "shift_bytes t (nat i * 5) 0"
    have i0: "0 \<le> i" using True "1.prems" by simp
    have len: "(nat (i - 1) + 2) * 5 \<le> length ?t1" using "1.prems" i0 by simp
    have b1: "b < length ?t1" using "1.prems" by simp
    have ih: "shift_loop ?t1 index (i - 1) ! b =
        (if index * 5 + 5 \<le> int b \<and> int b < (i - 1) * 5 + 10 then ?t1 ! (b - 5) else ?t1 ! b)"
      using "1.IH" [OF True "1.prems"(1) len b1] .
    have k: "nat i * 5 + 10 \<le> length t" using "1.prems" by simp
    have n1: "\<And>x. x < length t \<Longrightarrow> ?t1 ! x =
        (if nat i * 5 + 5 \<le> x \<and> x < nat i * 5 + 10 then t ! (x - 5) else t ! x)"
      using shift_bytes_nth [OF k] by simp
    have eq: "shift_loop t index i = shift_loop ?t1 index (i - 1)"
      using True by (subst shift_loop.simps) simp
    have b5: "b - 5 < length t" using "1.prems" by simp
    show ?thesis unfolding eq ih n1 [OF b5] n1 [OF "1.prems"(3)]
      using "1.prems" i0 True by auto
  qed
qed
lemma table_of_slot:
  "length rs \<le> NUMBER_OF_CUBES \<Longrightarrow> s < NUMBER_OF_CUBES \<Longrightarrow> k < 5 \<Longrightarrow>
   table_of rs ! (s * 5 + k) = (if s < length rs then enc_record (rs ! s) ! k else 0)"
  by (simp add: table_of_nth_record table_of_nth_zero)

lemma table_eqI:
  assumes "length t = NUMBER_OF_CUBES * 5" "length t' = NUMBER_OF_CUBES * 5"
    and "\<And>s k. s < NUMBER_OF_CUBES \<Longrightarrow> k < 5 \<Longrightarrow> t ! (s * 5 + k) = t' ! (s * 5 + k)"
  shows "t = t'"
proof (rule nth_equalityI)
  show "length t = length t'" using assms by simp
next
  fix b assume b: "b < length t"
  have "b div 5 < NUMBER_OF_CUBES" "b mod 5 < 5" using b assms(1) by (simp_all add: div_less_iff_less_mult)
  then have "t ! (b div 5 * 5 + b mod 5) = t' ! (b div 5 * 5 + b mod 5)" by (rule assms(3))
  then show "t ! b = t' ! b" by simp
qed

lemma shift_data_up_length [simp]: "length (shift_data_up t index) = length t"
  by (simp add: shift_data_up_def)

lemma shift_data_up_slot:
  assumes "length t = NUMBER_OF_CUBES * 5" "index < NUMBER_OF_CUBES" "s < NUMBER_OF_CUBES" "k < 5"
  shows "shift_data_up t (int index) ! (s * 5 + k) =
     (if index < s then t ! ((s - 1) * 5 + k) else t ! (s * 5 + k))"
proof -
  have len: "(nat (int NUMBER_OF_CUBES - 2) + 2) * 5 \<le> length t"
    using assms(1) by (simp add: NUMBER_OF_CUBES_def)
  have b: "s * 5 + k < length t" using assms by simp
  have "shift_data_up t (int index) ! (s * 5 + k) =
     (if int index * 5 + 5 \<le> int (s * 5 + k) \<and> int (s * 5 + k) < (int NUMBER_OF_CUBES - 2) * 5 + 10
      then t ! (s * 5 + k - 5) else t ! (s * 5 + k))"
    unfolding shift_data_up_def by (rule shift_loop_nth [OF _ len b]) simp
  also have "\<dots> = (if index < s then t ! ((s - 1) * 5 + k) else t ! (s * 5 + k))"
  proof (cases "index < s")
    case True
    then have "s * 5 + k - 5 = (s - 1) * 5 + k" by (cases s) simp_all
    then show ?thesis using True assms by simp
  next
    case False
    then show ?thesis using assms by simp
  qed
  finally show ?thesis .
qed

text \<open>The table \<open>add_state\<close> leaves when \<open>find_index\<close> has returned the slot \<open>index\<close>.\<close>

definition put_record :: "byte list \<Rightarrow> nat \<Rightarrow> int \<Rightarrow> byte \<Rightarrow> byte list" where
  "put_record t index cube turn =
     (shift_data_up t (int index))
       [index * 5 := cube_byte 3 cube, index * 5 + 1 := cube_byte 2 cube,
        index * 5 + 2 := cube_byte 1 cube, index * 5 + 3 := cube_byte 0 cube,
        index * 5 + 4 := turn]"

lemma add_state_index:
  "find_index t cube = Some (int index) \<Longrightarrow> add_state t cube turn = Some (1, put_record t index cube turn)"
  by (simp add: add_state_def put_record_def Let_def)

lemma add_state_present:
  "find_index t cube = Some (- 1) \<Longrightarrow> add_state t cube turn = Some (0, t)"
  by (simp add: add_state_def)

lemma add_state_none:
  "find_index t cube = None \<Longrightarrow> add_state t cube turn = None"
  by (simp add: add_state_def)

lemma put_record_length [simp]: "length (put_record t index cube turn) = length t"
  by (simp add: put_record_def)

lemma put_record_slot:
  assumes "length t = NUMBER_OF_CUBES * 5" "index < NUMBER_OF_CUBES" "s < NUMBER_OF_CUBES" "k < 5"
  shows "put_record t index cube turn ! (s * 5 + k) =
     (if s = index then enc_record (cube, turn) ! k
      else if index < s then t ! ((s - 1) * 5 + k) else t ! (s * 5 + k))"
proof (cases "s = index")
  case True
  have "k = 0 \<or> k = 1 \<or> k = 2 \<or> k = 3 \<or> k = 4" using assms(4) by auto
  then show ?thesis using True assms by (auto simp: put_record_def enc_record_def)
next
  case False
  have ne: "\<And>j. j < 5 \<Longrightarrow> index * 5 + j \<noteq> s * 5 + k" using False assms(4) by presburger
  have "put_record t index cube turn ! (s * 5 + k) = shift_data_up t (int index) ! (s * 5 + k)"
    using ne [of 0] ne [of 1] ne [of 2] ne [of 3] ne [of 4] by (simp add: put_record_def)
  then show ?thesis using False shift_data_up_slot [OF assms] by simp
qed
section \<open>find\_index on a table of records\<close>

lemma find_index_empty:
  "i < NUMBER_OF_CUBES \<Longrightarrow> t ! (i * 5) = 0 \<Longrightarrow> t ! (i * 5 + 1) = 0 \<Longrightarrow> t ! (i * 5 + 2) = 0 \<Longrightarrow>
   t ! (i * 5 + 3) = 0 \<Longrightarrow> find_index_loop t b3 b2 b1 b0 i = Some (int i)"
  by (subst find_index_loop.simps) simp

lemma find_index_end:
  "\<not> i < NUMBER_OF_CUBES \<Longrightarrow> find_index_loop t b3 b2 b1 b0 i = None"
  by (subst find_index_loop.simps) simp

definition find_pos :: "int \<Rightarrow> (int \<times> byte) list \<Rightarrow> nat" where
  "find_pos c rs = length (takeWhile (\<lambda>r. fst r < c) rs)"

definition cubes32 :: "(int \<times> byte) list \<Rightarrow> bool" where
  "cubes32 rs = (\<forall>r\<in>set rs. 0 < fst r \<and> fst r < 4294967296)"

lemma find_pos_le: "find_pos c rs \<le> length rs"
  by (simp add: find_pos_def length_takeWhile_le)

lemma find_pos_less: "j < find_pos c rs \<Longrightarrow> fst (rs ! j) < c"
  unfolding find_pos_def using nth_length_takeWhile takeWhile_nth
  by (metis (mono_tags, lifting) nth_mem set_takeWhileD)

lemma find_pos_stop: "find_pos c rs < length rs \<Longrightarrow> \<not> fst (rs ! find_pos c rs) < c"
  unfolding find_pos_def by (rule nth_length_takeWhile)

lemma table_of_slot_bytes:
  assumes "length rs \<le> NUMBER_OF_CUBES" "i < length rs"
  shows "table_of rs ! (i * 5) = cube_byte 3 (fst (rs ! i))"
    "table_of rs ! (i * 5 + 1) = cube_byte 2 (fst (rs ! i))"
    "table_of rs ! (i * 5 + 2) = cube_byte 1 (fst (rs ! i))"
    "table_of rs ! (i * 5 + 3) = cube_byte 0 (fst (rs ! i))"
    "table_of rs ! (i * 5 + 4) = snd (rs ! i)"
  using table_of_nth_record [OF assms(2), of 0] table_of_nth_record [OF assms(2), of 1]
    table_of_nth_record [OF assms(2), of 2] table_of_nth_record [OF assms(2), of 3]
    table_of_nth_record [OF assms(2), of 4]
  by (simp_all add: enc_record_def)

lemma table_of_slot_empty:
  assumes "length rs \<le> i" "i < NUMBER_OF_CUBES"
  shows "table_of rs ! (i * 5) = 0" "table_of rs ! (i * 5 + 1) = 0" "table_of rs ! (i * 5 + 2) = 0"
    "table_of rs ! (i * 5 + 3) = 0" "table_of rs ! (i * 5 + 4) = 0"
  using table_of_nth_zero [OF assms, of 0] table_of_nth_zero [OF assms, of 1]
    table_of_nth_zero [OF assms, of 2] table_of_nth_zero [OF assms, of 3]
    table_of_nth_zero [OF assms, of 4]
  by simp_all

definition find_result :: "int \<Rightarrow> (int \<times> byte) list \<Rightarrow> int option" where
  "find_result c rs =
     (let p = find_pos c rs in
      if p < length rs then (if fst (rs ! p) = c then Some (- 1) else Some (int p))
      else if p < NUMBER_OF_CUBES then Some (int p) else None)"

lemma find_index_loop_table_of:
  assumes len: "length rs \<le> NUMBER_OF_CUBES" and rs: "cubes32 rs"
    and c: "0 \<le> c" "c < 4294967296" and i: "i \<le> find_pos c rs"
  shows "find_index_loop (table_of rs) (cube_byte 3 c) (cube_byte 2 c) (cube_byte 1 c) (cube_byte 0 c) i =
     find_result c rs"
  using i
proof (induction "find_pos c rs - i" arbitrary: i)
  case 0
  then have ip: "i = find_pos c rs" by simp
  show ?case
  proof (cases "i < length rs")
    case True
    have a: "0 < fst (rs ! i)" "fst (rs ! i) < 4294967296" using rs True by (auto simp: cubes32_def)
    have iN: "i < NUMBER_OF_CUBES" using True len by simp
    have nl: "\<not> fst (rs ! i) < c" using find_pos_stop [of c rs] True ip by simp
    show ?thesis
      using find_index_step [OF iN table_of_slot_bytes(1-4) [OF len True] a c] nl True ip
      by (auto simp: find_result_def Let_def)
  next
    case False
    then have il: "i = length rs" using find_pos_le [of c rs] ip by simp
    show ?thesis
    proof (cases "i < NUMBER_OF_CUBES")
      case True
      have le: "length rs \<le> i" using il by simp
      show ?thesis
        using find_index_empty [OF True table_of_slot_empty(1-4) [OF le True]] il ip True
        by (simp add: find_result_def)
    next
      case False
      then show ?thesis using find_index_end [OF False] il ip by (simp add: find_result_def)
    qed
  qed
next
  case (Suc n)
  then have ip: "i < find_pos c rs" by simp
  then have il: "i < length rs" using find_pos_le [of c rs] by simp
  have a: "0 < fst (rs ! i)" "fst (rs ! i) < 4294967296" using rs il by (auto simp: cubes32_def)
  have iN: "i < NUMBER_OF_CUBES" using il len by simp
  have lt: "fst (rs ! i) < c" using find_pos_less [OF ip] .
  have "find_index_loop (table_of rs) (cube_byte 3 c) (cube_byte 2 c) (cube_byte 1 c) (cube_byte 0 c) i =
      find_index_loop (table_of rs) (cube_byte 3 c) (cube_byte 2 c) (cube_byte 1 c) (cube_byte 0 c) (i + 1)"
    using find_index_step [OF iN table_of_slot_bytes(1-4) [OF len il] a c] lt by simp
  also have "\<dots> = find_result c rs" using Suc(1) [of "i + 1"] Suc(2) ip by simp
  finally show ?case .
qed

lemma find_index_table_of:
  "length rs \<le> NUMBER_OF_CUBES \<Longrightarrow> cubes32 rs \<Longrightarrow> 0 \<le> c \<Longrightarrow> c < 4294967296 \<Longrightarrow>
   find_index (table_of rs) c = find_result c rs"
  unfolding find_index_def by (rule find_index_loop_table_of) simp_all

lemma cube_byte_0 [simp]: "cube_byte k 0 = 0"
  by (simp add: cube_byte_def)

lemma find_index_zero: "find_index t 0 = Some 0"
  unfolding find_index_def
  by (subst find_index_loop.simps) (auto simp: NUMBER_OF_CUBES_def word_gt_0)

lemma cube_of_bytes_0 [simp]: "cube_of_bytes 0 0 0 0 = 0"
  by (simp add: cube_of_bytes_def)

lemma put_record_at:
  assumes "length t = NUMBER_OF_CUBES * 5" "index < NUMBER_OF_CUBES"
  shows "put_record t index cube turn ! (index * 5) = cube_byte 3 cube"
    "put_record t index cube turn ! (index * 5 + 1) = cube_byte 2 cube"
    "put_record t index cube turn ! (index * 5 + 2) = cube_byte 1 cube"
    "put_record t index cube turn ! (index * 5 + 3) = cube_byte 0 cube"
    "put_record t index cube turn ! (index * 5 + 4) = turn"
  using put_record_slot [OF assms assms(2), of 0 cube turn] put_record_slot [OF assms assms(2), of 1 cube turn]
    put_record_slot [OF assms assms(2), of 2 cube turn] put_record_slot [OF assms assms(2), of 3 cube turn]
    put_record_slot [OF assms assms(2), of 4 cube turn]
  by (simp_all add: enc_record_def)

text \<open>
  C10. \<open>find_index\<close> stops at a slot whose four cube bytes are zero and returns it.
  For the cube 0 it returns slot 0 on every table, so \<open>add_state\<close> with the cube 0
  returns 1 on every call and never 0, also on the table an earlier such call has left,
  whose slot 0 holds the cube 0.
\<close>

theorem zero_cube_always_new:
  assumes "length t = NUMBER_OF_CUBES * SIZE_OF_CUBE"
  shows "(i < NUMBER_OF_CUBES \<and> t ! (i * 5) = 0 \<and> t ! (i * 5 + 1) = 0 \<and> t ! (i * 5 + 2) = 0 \<and>
      t ! (i * 5 + 3) = 0 \<longrightarrow> find_index_loop t b3 b2 b1 b0 i = Some (int i)) \<and>
    find_index t 0 = Some 0 \<and>
    (\<exists>t'. add_state t 0 turn = Some (1, t') \<and> length t' = length t \<and>
       cube_at t' 0 = 0 \<and> t' ! 4 = turn \<and>
       (\<exists>t''. add_state t' 0 turn' = Some (1, t'')))"
proof (intro conjI impI)
  assume "i < NUMBER_OF_CUBES \<and> t ! (i * 5) = 0 \<and> t ! (i * 5 + 1) = 0 \<and> t ! (i * 5 + 2) = 0 \<and>
      t ! (i * 5 + 3) = 0"
  then show "find_index_loop t b3 b2 b1 b0 i = Some (int i)" by (simp add: find_index_empty)
next
  show "find_index t 0 = Some 0" by (rule find_index_zero)
next
  let ?t' = "put_record t 0 0 turn"
  have len: "length t = NUMBER_OF_CUBES * 5" using assms by (simp add: SIZE_OF_CUBE_def)
  have n0: "0 < NUMBER_OF_CUBES" by (simp add: NUMBER_OF_CUBES_def)
  have 1: "add_state t 0 turn = Some (1, ?t')"
    using add_state_index [of t 0 0 turn] find_index_zero [of t] by simp
  have 2: "add_state ?t' 0 turn' = Some (1, put_record ?t' 0 0 turn')"
    using add_state_index [of ?t' 0 0 turn'] find_index_zero [of ?t'] by simp
  have 3: "cube_at ?t' 0 = 0" "?t' ! 4 = turn"
    using put_record_at [OF len n0, of 0 turn] by (simp_all add: cube_at_def)
  show "\<exists>t'. add_state t 0 turn = Some (1, t') \<and> length t' = length t \<and>
       cube_at t' 0 = 0 \<and> t' ! 4 = turn \<and> (\<exists>t''. add_state t' 0 turn' = Some (1, t''))"
    using 1 2 3 by (intro exI [of _ ?t']) simp
qed

theorem zero_cube_always_new_witness:
  "length make_state_table = NUMBER_OF_CUBES * SIZE_OF_CUBE \<and>
   (7 < NUMBER_OF_CUBES \<and> make_state_table ! (7 * 5) = 0 \<and> make_state_table ! (7 * 5 + 1) = 0 \<and>
    make_state_table ! (7 * 5 + 2) = 0 \<and> make_state_table ! (7 * 5 + 3) = 0) \<and>
   find_index_loop make_state_table 1 2 3 4 7 = Some 7 \<and>
   find_index make_state_table 0 = Some 0 \<and>
   (\<exists>t'. add_state make_state_table 0 3 = Some (1, t') \<and> length t' = length make_state_table \<and>
       cube_at t' 0 = 0 \<and> t' ! 4 = 3 \<and> (\<exists>t''. add_state t' 0 5 = Some (1, t'')))"
proof -
  have l: "length make_state_table = NUMBER_OF_CUBES * SIZE_OF_CUBE"
    by (simp add: make_state_table_def)
  have z: "7 < NUMBER_OF_CUBES \<and> make_state_table ! (7 * 5) = 0 \<and> make_state_table ! (7 * 5 + 1) = 0 \<and>
    make_state_table ! (7 * 5 + 2) = 0 \<and> make_state_table ! (7 * 5 + 3) = 0"
    by (simp add: make_state_table_def NUMBER_OF_CUBES_def SIZE_OF_CUBE_def)
  show ?thesis
    using zero_cube_always_new [OF l, of 7 1 2 3 4 3 5] l z by simp
qed

section \<open>get\_turn and the slots it reads\<close>

text \<open>The first \<open>k\<close> slots hold cubes in strictly ascending order (as \<open>int\<close>s).\<close>

definition sorted_slots :: "byte list \<Rightarrow> nat \<Rightarrow> bool" where
  "sorted_slots t k = (\<forall>i j. i < j \<and> j < k \<longrightarrow> cube_at t i < cube_at t j)"

text \<open>
  The slots that the loop of \<open>get_turn\<close> reads between \<open>min_i\<close> and \<open>max_i\<close> when
  every comparison sends it to the right (\<open>min = middle + 1\<close>).
\<close>

function right_path :: "int \<Rightarrow> int \<Rightarrow> int list" where
  "right_path min_i max_i =
     (let middle = min_i + ((max_i - min_i) sdiv 2)
      in middle # (if max_i \<ge> middle + 1 then right_path (middle + 1) max_i else []))"
  by pat_completeness auto
termination
proof (relation "measure (\<lambda>(lo, hi). nat (hi - lo + 1))", goal_cases)
  case 1
  show ?case by simp
next
  case (2 lo hi middle)
  then show ?case by (cases "lo \<le> hi") (auto simp: signed_divide_int_def sgn_if)
qed

declare right_path.simps [simp del]

lemma sorted_slots_less_iff:
  assumes "sorted_slots t k" "i < k" "j < k"
  shows "cube_at t i < cube_at t j \<longleftrightarrow> i < j"
proof
  assume l: "cube_at t i < cube_at t j"
  show "i < j"
  proof (rule ccontr)
    assume "\<not> i < j"
    then have "j = i \<or> j < i" by auto
    then show False using l assms unfolding sorted_slots_def by force
  qed
next
  assume "i < j" then show "cube_at t i < cube_at t j" using assms unfolding sorted_slots_def by blast
qed

lemma sorted_slots_eq_iff:
  assumes "sorted_slots t k" "i < k" "j < k"
  shows "cube_at t i = cube_at t j \<longleftrightarrow> i = j"
  using sorted_slots_less_iff [OF assms] sorted_slots_less_iff [OF assms(1) assms(3) assms(2)]
  by (metis less_irrefl linorder_neqE_nat)

lemma middle_bounds:
  "lo \<le> hi \<Longrightarrow> lo \<le> lo + ((hi - lo) sdiv 2) \<and> lo + ((hi - lo) sdiv 2) \<le> (hi::int)"
  by (simp add: sdiv_nonneg)

lemma get_turn_loop_inside:
  "sorted_slots t k \<Longrightarrow> m < k \<Longrightarrow> cube_at t m = c \<Longrightarrow>
   0 \<le> lo \<Longrightarrow> hi < int k \<Longrightarrow> lo \<le> int m \<Longrightarrow> int m \<le> hi \<Longrightarrow>
    get_turn_loop t c lo hi = t ! (m * 5 + 4)"
proof (induction t c lo hi rule: get_turn_loop.induct)
  case (1 t c lo hi)
  note st = "1.prems"(1) and m = "1.prems"(2,3)
  define middle where "middle = lo + ((hi - lo) sdiv 2)"
  have lh: "lo \<le> hi" using "1.prems" by simp
  have mb: "lo \<le> middle" "middle \<le> hi" using middle_bounds [OF lh] by (simp_all add: middle_def)
  have mN: "nat middle < k" using mb "1.prems" by simp
  show ?case
  proof (cases "cube_at t (nat middle) < c")
    case True
    then have "nat middle < m" using sorted_slots_less_iff [OF st mN m(1)] m(2) by simp
    then have mm: "middle + 1 \<le> int m" using mb "1.prems" by simp
    then have g: "hi \<ge> middle + 1" using "1.prems" by simp
    have "get_turn_loop t c lo hi = get_turn_loop t c (middle + 1) hi"
      using True g by (subst get_turn_loop.simps) (simp add: middle_def Let_def)
    also have "\<dots> = t ! (m * 5 + 4)"
      using "1.IH"(1) [OF middle_def refl True g st m] mb "1.prems" mm by simp
    finally show ?thesis .
  next
    case False
    show ?thesis
    proof (cases "cube_at t (nat middle) > c")
      case True
      then have "m < nat middle" using sorted_slots_less_iff [OF st m(1) mN] m(2) by simp
      then have mm: "int m \<le> middle - 1" using mb "1.prems" by simp
      then have g: "middle - 1 \<ge> lo" using "1.prems" by simp
      have "get_turn_loop t c lo hi = get_turn_loop t c lo (middle - 1)"
        using True False g by (subst get_turn_loop.simps) (simp add: middle_def Let_def)
      also have "\<dots> = t ! (m * 5 + 4)"
        using "1.IH"(2) [OF middle_def refl False True g st m] mb "1.prems" mm by simp
      finally show ?thesis .
    next
      case F2: False
      then have "cube_at t (nat middle) = cube_at t m" using False m(2) by simp
      then have "nat middle = m" using sorted_slots_eq_iff [OF st mN m(1)] by simp
      then show ?thesis using False F2
        by (subst get_turn_loop.simps) (simp add: middle_def [symmetric] Let_def)
    qed
  qed
qed

lemma get_turn_loop_absent:
  "0 \<le> lo \<Longrightarrow> hi < int NUMBER_OF_CUBES \<Longrightarrow> lo \<le> hi \<Longrightarrow>
   (\<And>m. lo \<le> int m \<Longrightarrow> int m \<le> hi \<Longrightarrow> cube_at t m \<noteq> c) \<Longrightarrow>
    get_turn_loop t c lo hi = - 1"
proof (induction t c lo hi rule: get_turn_loop.induct)
  case (1 t c lo hi)
  define middle where "middle = lo + ((hi - lo) sdiv 2)"
  have mb: "lo \<le> middle" "middle \<le> hi" using middle_bounds [OF "1.prems"(3)] by (simp_all add: middle_def)
  have ne: "cube_at t (nat middle) \<noteq> c" using "1.prems"(4) [of "nat middle"] mb "1.prems"(1) by simp
  show ?case
  proof (cases "cube_at t (nat middle) < c")
    case True
    show ?thesis
    proof (cases "hi \<ge> middle + 1")
      case g: True
      have "get_turn_loop t c lo hi = get_turn_loop t c (middle + 1) hi"
        using True g by (subst get_turn_loop.simps) (simp add: middle_def Let_def)
      also have "\<dots> = - 1"
        using "1.IH"(1) [OF middle_def refl True g] mb "1.prems" g by simp
      finally show ?thesis .
    next
      case False
      then show ?thesis using True by (subst get_turn_loop.simps) (simp add: middle_def Let_def)
    qed
  next
    case False
    then have gt: "cube_at t (nat middle) > c" using ne by simp
    show ?thesis
    proof (cases "middle - 1 \<ge> lo")
      case g: True
      have "get_turn_loop t c lo hi = get_turn_loop t c lo (middle - 1)"
        using False gt g by (subst get_turn_loop.simps) (simp add: middle_def Let_def)
      also have "\<dots> = - 1"
        using "1.IH"(2) [OF middle_def refl False gt g] mb "1.prems" g by simp
      finally show ?thesis .
    next
      case F2: False
      then show ?thesis using False gt by (subst get_turn_loop.simps) (simp add: middle_def Let_def)
    qed
  qed
qed

lemma right_path_unfold:
  "right_path lo hi =
     (lo + ((hi - lo) sdiv 2)) #
       (if hi \<ge> lo + ((hi - lo) sdiv 2) + 1 then right_path (lo + ((hi - lo) sdiv 2) + 1) hi else [])"
  by (subst right_path.simps) (simp add: Let_def)

lemma right_path_bounds:
  "lo \<le> hi \<Longrightarrow> x \<in> set (right_path lo hi) \<Longrightarrow> lo \<le> x \<and> x \<le> hi"
proof (induction lo hi rule: right_path.induct)
  case (1 lo hi)
  define middle where "middle = lo + ((hi - lo) sdiv 2)"
  have mb: "lo \<le> middle" "middle \<le> hi" using middle_bounds [OF "1.prems"(1)] by (simp_all add: middle_def)
  have rp: "right_path lo hi = middle # (if hi \<ge> middle + 1 then right_path (middle + 1) hi else [])"
    unfolding middle_def by (rule right_path_unfold)
  show ?case
  proof (cases "x = middle")
    case True
    then show ?thesis using mb by simp
  next
    case False
    then have g: "hi \<ge> middle + 1" and x: "x \<in> set (right_path (middle + 1) hi)"
      using "1.prems"(2) unfolding rp by (auto split: if_splits)
    show ?thesis using "1.IH" [OF middle_def g g x] mb by simp
  qed
qed

lemma get_turn_loop_right:
  "sorted_slots t k \<Longrightarrow> m < k \<Longrightarrow> cube_at t m = c \<Longrightarrow> 0 \<le> lo \<Longrightarrow> lo \<le> int m \<Longrightarrow> lo \<le> hi \<Longrightarrow>
   int k - 1 \<in> set (right_path lo hi) \<Longrightarrow>
    get_turn_loop t c lo hi = t ! (m * 5 + 4)"
proof (induction t c lo hi rule: get_turn_loop.induct)
  case (1 t c lo hi)
  note st = "1.prems"(1) and m = "1.prems"(2,3)
  define middle where "middle = lo + ((hi - lo) sdiv 2)"
  have mb: "lo \<le> middle" "middle \<le> hi" using middle_bounds [OF "1.prems"(6)] by (simp_all add: middle_def)
  have rp: "right_path lo hi = middle # (if hi \<ge> middle + 1 then right_path (middle + 1) hi else [])"
    unfolding middle_def by (rule right_path_unfold)
  have rest: "int k - 1 \<noteq> middle \<Longrightarrow> hi \<ge> middle + 1 \<and> int k - 1 \<in> set (right_path (middle + 1) hi)"
    using "1.prems"(7) unfolding rp by (auto split: if_splits)
  have "middle \<le> int k - 1"
  proof (cases "int k - 1 = middle")
    case True
    then show ?thesis by simp
  next
    case False
    then show ?thesis using right_path_bounds [of "middle + 1" hi "int k - 1"] rest by simp
  qed
  then have mN: "nat middle < k" using mb "1.prems"(4) by simp
  show ?case
  proof (cases "cube_at t (nat middle) < c")
    case True
    then have "nat middle < m" using sorted_slots_less_iff [OF st mN m(1)] m(2) by simp
    then have mm: "middle + 1 \<le> int m" using mb "1.prems" by simp
    then have "int k - 1 \<noteq> middle" using m(1) by simp
    then have g: "hi \<ge> middle + 1" and r: "int k - 1 \<in> set (right_path (middle + 1) hi)"
      using rest by simp_all
    have "get_turn_loop t c lo hi = get_turn_loop t c (middle + 1) hi"
      using True g by (subst get_turn_loop.simps) (simp add: middle_def Let_def)
    also have "\<dots> = t ! (m * 5 + 4)"
      using "1.IH"(1) [OF middle_def refl True g st m _ mm g r] mb "1.prems"(4) by simp
    finally show ?thesis .
  next
    case False
    show ?thesis
    proof (cases "cube_at t (nat middle) > c")
      case True
      then have "m < nat middle" using sorted_slots_less_iff [OF st m(1) mN] m(2) by simp
      then have mm: "int m \<le> middle - 1" using mb "1.prems" by simp
      then have g: "middle - 1 \<ge> lo" using "1.prems" by simp
      have "get_turn_loop t c lo hi = get_turn_loop t c lo (middle - 1)"
        using True False g by (subst get_turn_loop.simps) (simp add: middle_def Let_def)
      also have "\<dots> = t ! (m * 5 + 4)"
        using mN mm "1.prems"(4,5) by (intro get_turn_loop_inside [OF st m]) simp_all
      finally show ?thesis .
    next
      case F2: False
      then have "cube_at t (nat middle) = cube_at t m" using False m(2) by simp
      then have "nat middle = m" using sorted_slots_eq_iff [OF st mN m(1)] by simp
      then show ?thesis using False F2
        by (subst get_turn_loop.simps) (simp add: middle_def [symmetric] Let_def)
    qed
  qed
qed

lemma get_turn_loop_off_path:
  "sorted_slots t k \<Longrightarrow> 0 < k \<Longrightarrow> c = cube_at t (k - 1) \<Longrightarrow>
   (\<And>i. k \<le> i \<Longrightarrow> i < NUMBER_OF_CUBES \<Longrightarrow> cube_at t i < c) \<Longrightarrow>
   0 \<le> lo \<Longrightarrow> lo \<le> int k - 1 \<Longrightarrow> int k - 1 \<le> hi \<Longrightarrow> hi < int NUMBER_OF_CUBES \<Longrightarrow>
   int k - 1 \<notin> set (right_path lo hi) \<Longrightarrow>
    get_turn_loop t c lo hi = - 1"
proof (induction t c lo hi rule: get_turn_loop.induct)
  case (1 t c lo hi)
  note st = "1.prems"(1) and k = "1.prems"(2) and c = "1.prems"(3) and e = "1.prems"(4)
  define middle where "middle = lo + ((hi - lo) sdiv 2)"
  have lh: "lo \<le> hi" using "1.prems" by simp
  have mb: "lo \<le> middle" "middle \<le> hi" using middle_bounds [OF lh] by (simp_all add: middle_def)
  have rp: "right_path lo hi = middle # (if hi \<ge> middle + 1 then right_path (middle + 1) hi else [])"
    unfolding middle_def by (rule right_path_unfold)
  have ne: "int k - 1 \<noteq> middle" using "1.prems"(9) unfolding rp by auto
  have less: "cube_at t (nat middle) < c"
  proof (cases "middle < int k - 1")
    case True
    then have "nat middle < k - 1" using mb "1.prems"(5) by simp
    then show ?thesis using st k unfolding c sorted_slots_def by simp
  next
    case False
    then have "k \<le> nat middle" using ne by simp
    moreover have "nat middle < NUMBER_OF_CUBES" using mb "1.prems"(5,8) by simp
    ultimately show ?thesis by (rule e)
  qed
  show ?case
  proof (cases "hi \<ge> middle + 1")
    case g: True
    have s: "get_turn_loop t c lo hi = get_turn_loop t c (middle + 1) hi"
      using less g by (subst get_turn_loop.simps) (simp add: middle_def Let_def)
    show ?thesis
    proof (cases "middle < int k - 1")
      case True
      have r: "int k - 1 \<notin> set (right_path (middle + 1) hi)"
        using "1.prems"(9) g unfolding rp by simp
      have "get_turn_loop t c (middle + 1) hi = - 1"
        using "1.IH"(1) [OF middle_def refl less g st k c e _ _ "1.prems"(7,8) r] True mb "1.prems"(5)
        by simp
      then show ?thesis using s by simp
    next
      case False
      then have km: "int k \<le> middle" using ne by simp
      have "get_turn_loop t c (middle + 1) hi = - 1"
      proof (rule get_turn_loop_absent)
        show "0 \<le> middle + 1" using mb "1.prems"(5) by simp
        show "hi < int NUMBER_OF_CUBES" by (rule "1.prems"(8))
        show "middle + 1 \<le> hi" using g by simp
        fix i :: nat assume i: "middle + 1 \<le> int i" "int i \<le> hi"
        have "cube_at t i < c" using e [of i] i km "1.prems"(8) by simp
        then show "cube_at t i \<noteq> c" by simp
      qed
      then show ?thesis using s by simp
    qed
  next
    case False
    then show ?thesis using less by (subst get_turn_loop.simps) (simp add: middle_def Let_def)
  qed
qed

lemma right_path_table:
  "right_path 0 (int NUMBER_OF_CUBES - 1) =
     [1837079, 2755619, 3214889, 3444524, 3559342, 3616751, 3645455, 3659807, 3666983, 3670571,
      3672365, 3673262, 3673711, 3673935, 3674047, 3674103, 3674131, 3674145, 3674152, 3674156,
      3674158, 3674159]"
  by (simp add: right_path_unfold NUMBER_OF_CUBES_def signed_divide_int_def)

section \<open>add\_state on a table of records\<close>

definition insert_at :: "nat \<Rightarrow> 'a \<Rightarrow> 'a list \<Rightarrow> 'a list" where
  "insert_at i x xs = take i xs @ x # drop i xs"

lemma length_insert_at [simp]: "length (insert_at i x xs) = Suc (length xs)"
  by (simp add: insert_at_def)

lemma nth_insert_at:
  "i \<le> length xs \<Longrightarrow> s \<le> length xs \<Longrightarrow>
   insert_at i x xs ! s = (if s < i then xs ! s else if s = i then x else xs ! (s - 1))"
  by (auto simp: insert_at_def nth_append min_def nth_Cons')

lemma set_insert_at: "set (insert_at i x xs) = insert x (set xs)"
proof -
  have "set (insert_at i x xs) = insert x (set (take i xs @ drop i xs))"
    unfolding insert_at_def by (simp only: set_append set_simps Un_insert_right)
  then show ?thesis by (simp only: append_take_drop_id)
qed

lemma make_state_table_of: "make_state_table = table_of []"
  by (simp add: make_state_table_def table_of_def SIZE_OF_CUBE_def)

lemma put_record_table_of:
  assumes len: "length rs \<le> NUMBER_OF_CUBES" and idx: "index \<le> length rs" "index < NUMBER_OF_CUBES"
  shows "put_record (table_of rs) index c turn =
     table_of (take NUMBER_OF_CUBES (insert_at index (c, turn) rs))"
proof (rule table_eqI)
  let ?xs = "take NUMBER_OF_CUBES (insert_at index (c, turn) rs)"
  have lx: "length ?xs \<le> NUMBER_OF_CUBES" by simp
  show "length (put_record (table_of rs) index c turn) = NUMBER_OF_CUBES * 5"
    using len by (simp add: length_table_of)
  show "length (table_of ?xs) = NUMBER_OF_CUBES * 5"
    using lx by (rule length_table_of)
  fix s k :: nat assume s: "s < NUMBER_OF_CUBES" and k: "k < 5"
  have lt: "length (table_of rs) = NUMBER_OF_CUBES * 5" using len by (rule length_table_of)
  have L: "put_record (table_of rs) index c turn ! (s * 5 + k) =
     (if s = index then enc_record (c, turn) ! k
      else if index < s then table_of rs ! ((s - 1) * 5 + k) else table_of rs ! (s * 5 + k))"
    by (rule put_record_slot [OF lt idx(2) s k])
  have R: "table_of ?xs ! (s * 5 + k) = (if s < length ?xs then enc_record (?xs ! s) ! k else 0)"
    by (rule table_of_slot [OF lx s k])
  have lxs: "s < length ?xs \<longleftrightarrow> s \<le> length rs" using s by auto
  show "put_record (table_of rs) index c turn ! (s * 5 + k) = table_of ?xs ! (s * 5 + k)"
  proof (cases "s \<le> length rs")
    case True
    then have x: "?xs ! s = (if s < index then rs ! s else if s = index then (c, turn) else rs ! (s - 1))"
      using s idx by (simp add: nth_insert_at)
    show ?thesis
    proof (cases "s = index")
      case True
      then show ?thesis using L R lxs x \<open>s \<le> length rs\<close> by simp
    next
      case False
      show ?thesis
      proof (cases "index < s")
        case True
        then have s1: "s - 1 < NUMBER_OF_CUBES" "s - 1 < length rs" using s \<open>s \<le> length rs\<close> by simp_all
        have "table_of rs ! ((s - 1) * 5 + k) = enc_record (rs ! (s - 1)) ! k"
          using table_of_slot [OF len s1(1) k] s1(2) by simp
        then show ?thesis using L R lxs x \<open>s \<le> length rs\<close> True False by simp
      next
        case F: False
        then have si: "s < index" using False by simp
        then have "s < length rs" using idx by simp
        then have "table_of rs ! (s * 5 + k) = enc_record (rs ! s) ! k"
          using table_of_slot [OF len s k] by simp
        then show ?thesis using L R lxs x \<open>s \<le> length rs\<close> si by simp
      qed
    qed
  next
    case False
    then have gt: "length rs < s" by simp
    then have "index < s" "s \<noteq> index" using idx by simp_all
    moreover have "table_of rs ! ((s - 1) * 5 + k) = 0"
    proof -
      have a: "s - 1 < NUMBER_OF_CUBES" using s by simp
      have b: "\<not> s - 1 < length rs" using gt by arith
      show ?thesis using table_of_slot [OF len a k] b by simp
    qed
    ultimately show ?thesis using L R lxs False by simp
  qed
qed
lemma cube_at_table_of:
  assumes "length rs \<le> NUMBER_OF_CUBES" "s < NUMBER_OF_CUBES"
    and "s < length rs \<Longrightarrow> - (2 ^ 31) \<le> fst (rs ! s) \<and> fst (rs ! s) < 2 ^ 31"
  shows "cube_at (table_of rs) s = (if s < length rs then fst (rs ! s) else 0)"
proof (cases "s < length rs")
  case True
  have "cube_at (table_of rs) s = cube_of_bytes (cube_byte 3 (fst (rs ! s)))
      (cube_byte 2 (fst (rs ! s))) (cube_byte 1 (fst (rs ! s))) (cube_byte 0 (fst (rs ! s)))"
    unfolding cube_at_def by (simp only: table_of_slot_bytes(1-4) [OF assms(1) True])
  also have "\<dots> = fst (rs ! s)"
    using assms(3) [OF True] by (intro cube_of_bytes_cube_byte) simp_all
  finally show ?thesis using True by simp
next
  case False
  then have "length rs \<le> s" by simp
  then have "cube_at (table_of rs) s = cube_of_bytes 0 0 0 0"
    unfolding cube_at_def by (simp only: table_of_slot_empty(1-4) [OF _ assms(2)])
  then show ?thesis using False by simp
qed

lemma add_state_table_of:
  assumes len: "length rs \<le> NUMBER_OF_CUBES" and rs: "cubes32 rs" and c: "0 \<le> c" "c < 4294967296"
  shows "add_state (table_of rs) c turn =
     (case find_result c rs of
        None \<Rightarrow> None
      | Some r \<Rightarrow>
          if r = - 1 then Some (0, table_of rs)
          else Some (1, table_of (take NUMBER_OF_CUBES (insert_at (find_pos c rs) (c, turn) rs))))"
proof -
  have f: "find_index (table_of rs) c = find_result c rs"
    by (rule find_index_table_of [OF len rs c])
  show ?thesis
  proof (cases "find_result c rs")
    case None
    then show ?thesis using f by (simp add: add_state_none)
  next
    case (Some r)
    show ?thesis
    proof (cases "r = - 1")
      case True
      then show ?thesis using f Some by (simp add: add_state_present)
    next
      case False
      then have r: "r = int (find_pos c rs)" and p: "find_pos c rs < NUMBER_OF_CUBES"
        using Some len find_pos_le [of c rs]
        by (auto simp: find_result_def Let_def split: if_splits)
      have "add_state (table_of rs) c turn = Some (1, put_record (table_of rs) (find_pos c rs) c turn)"
        using f Some r by (simp add: add_state_index)
      then show ?thesis
        using put_record_table_of [OF len find_pos_le p, of c turn] Some False by simp
    qed
  qed
qed

lemma get_turn_first_right:
  assumes "cube_at t 1837079 < c"
    and "\<And>m. 1837080 \<le> m \<Longrightarrow> m < NUMBER_OF_CUBES \<Longrightarrow> cube_at t m \<noteq> c"
  shows "get_turn t c = - 1"
proof -
  have "get_turn t c = get_turn_loop t c 1837080 (int NUMBER_OF_CUBES - 1)"
    unfolding get_turn_def using assms(1)
    by (subst get_turn_loop.simps) (simp add: NUMBER_OF_CUBES_def sdiv_nonneg Let_def)
  also have "\<dots> = - 1"
    by (rule get_turn_loop_absent) (use assms(2) in \<open>simp_all add: NUMBER_OF_CUBES_def\<close>)
  finally show ?thesis .
qed

text \<open>
  C6, as the code has it. \<open>get_turn\<close> bisects all \<open>NUMBER_OF_CUBES\<close> slots, filled or
  not. It returns \<open>-1\<close> whenever no slot holds the cube. On a table whose first \<open>k\<close>
  slots hold cubes in strictly ascending order it returns the turn byte stored with the
  cube, for every cube in these slots, when slot \<open>k - 1\<close> is one of the 22 slots on the
  rightmost path of the bisection: \<open>k = NUMBER_OF_CUBES\<close> (the full table),
  \<open>k = NUMBER_OF_CUBES - 1\<close> (every slot but the last one filled), and 20 smaller
  counts, the smallest 1,837,080. For every other \<open>k\<close> from 1 on, when the slots behind
  the records hold less than the last record does (they are empty, and the records
  positive), it returns \<open>-1\<close> for the cube of the last record.
\<close>

theorem get_turn_filled_slots:
  "((\<forall>i < NUMBER_OF_CUBES. cube_at t i \<noteq> c) \<longrightarrow> get_turn t c = - 1) \<and>
   (sorted_slots t k \<and> int k - 1 \<in> set (right_path 0 (int NUMBER_OF_CUBES - 1)) \<and>
      m < k \<and> cube_at t m = c \<longrightarrow> get_turn t c = t ! (m * 5 + 4)) \<and>
   (sorted_slots t k \<and> 0 < k \<and> k < NUMBER_OF_CUBES \<and>
      int k - 1 \<notin> set (right_path 0 (int NUMBER_OF_CUBES - 1)) \<and>
      (\<forall>i. k \<le> i \<and> i < NUMBER_OF_CUBES \<longrightarrow> cube_at t i < cube_at t (k - 1)) \<longrightarrow>
        get_turn t (cube_at t (k - 1)) = - 1) \<and>
   int NUMBER_OF_CUBES - 1 \<in> set (right_path 0 (int NUMBER_OF_CUBES - 1)) \<and>
   int NUMBER_OF_CUBES - 2 \<in> set (right_path 0 (int NUMBER_OF_CUBES - 1))"
proof (intro conjI impI)
  assume "\<forall>i < NUMBER_OF_CUBES. cube_at t i \<noteq> c"
  then show "get_turn t c = - 1"
    unfolding get_turn_def by (intro get_turn_loop_absent) (simp_all add: NUMBER_OF_CUBES_def)
next
  assume a: "sorted_slots t k \<and> int k - 1 \<in> set (right_path 0 (int NUMBER_OF_CUBES - 1)) \<and>
      m < k \<and> cube_at t m = c"
  show "get_turn t c = t ! (m * 5 + 4)"
    unfolding get_turn_def using a
    by (intro get_turn_loop_right [of t k]) (simp_all add: NUMBER_OF_CUBES_def)
next
  assume a: "sorted_slots t k \<and> 0 < k \<and> k < NUMBER_OF_CUBES \<and>
      int k - 1 \<notin> set (right_path 0 (int NUMBER_OF_CUBES - 1)) \<and>
      (\<forall>i. k \<le> i \<and> i < NUMBER_OF_CUBES \<longrightarrow> cube_at t i < cube_at t (k - 1))"
  show "get_turn t (cube_at t (k - 1)) = - 1"
    unfolding get_turn_def using a
    by (intro get_turn_loop_off_path [of t k]) simp_all
next
  show "int NUMBER_OF_CUBES - 1 \<in> set (right_path 0 (int NUMBER_OF_CUBES - 1))"
    unfolding right_path_table by (simp add: NUMBER_OF_CUBES_def)
  show "int NUMBER_OF_CUBES - 2 \<in> set (right_path 0 (int NUMBER_OF_CUBES - 1))"
    unfolding right_path_table by (simp add: NUMBER_OF_CUBES_def)
qed

text \<open>Tables with \<open>k\<close> records: slot \<open>i\<close> of the first \<open>k\<close> holds the cube \<open>i + 1\<close> and the turn 1.\<close>

definition counting_table :: "nat \<Rightarrow> byte list" where
  "counting_table k = table_of (map (\<lambda>i. (int i + 1, 1)) [0 ..< k])"

lemma cube_at_counting_table:
  "k \<le> NUMBER_OF_CUBES \<Longrightarrow> i < NUMBER_OF_CUBES \<Longrightarrow>
   cube_at (counting_table k) i = (if i < k then int i + 1 else 0)"
  unfolding counting_table_def
  by (subst cube_at_table_of) (simp_all add: NUMBER_OF_CUBES_def)

lemma turn_at_counting_table:
  "k \<le> NUMBER_OF_CUBES \<Longrightarrow> i < k \<Longrightarrow> counting_table k ! (i * 5 + 4) = 1"
  unfolding counting_table_def
  by (subst table_of_slot_bytes(5)) simp_all

lemma sorted_counting_table: "k \<le> NUMBER_OF_CUBES \<Longrightarrow> sorted_slots (counting_table k) k"
  unfolding sorted_slots_def by (simp add: cube_at_counting_table NUMBER_OF_CUBES_def)

lemma one_record_slots:
  "i < NUMBER_OF_CUBES \<Longrightarrow> cube_at (table_of [(SOLVED_CUBE, 1)]) i = (if i < 1 then SOLVED_CUBE else 0)"
  by (subst cube_at_table_of) (auto simp: NUMBER_OF_CUBES_def SOLVED_CUBE_def)

theorem get_turn_filled_slots_witness:
  "sorted_slots (counting_table 3674159) 3674159 \<and>
   int 3674159 - 1 \<in> set (right_path 0 (int NUMBER_OF_CUBES - 1)) \<and>
   cube_at (counting_table 3674159) 6 = 7 \<and> counting_table 3674159 ! (6 * 5 + 4) = 1 \<and>
   get_turn (counting_table 3674159) 7 = 1 \<and>
   get_turn (counting_table 3674159) 3674159 = 1 \<and>
   get_turn (counting_table 3674159) 3674160 = - 1 \<and>
   get_turn (counting_table 3674160) 3674160 = 1 \<and>
   sorted_slots (table_of [(SOLVED_CUBE, 1)]) 1 \<and>
   int 1 - 1 \<notin> set (right_path 0 (int NUMBER_OF_CUBES - 1)) \<and>
   get_turn (table_of [(SOLVED_CUBE, 1)]) SOLVED_CUBE = - 1"
proof -
  have k: "(3674159::nat) \<le> NUMBER_OF_CUBES" "(3674160::nat) \<le> NUMBER_OF_CUBES"
    by (simp_all add: NUMBER_OF_CUBES_def)
  have s: "sorted_slots (counting_table 3674159) 3674159" "sorted_slots (counting_table 3674160) 3674160"
    by (rule sorted_counting_table [OF k(1)], rule sorted_counting_table [OF k(2)])
  have p: "int 3674159 - 1 \<in> set (right_path 0 (int NUMBER_OF_CUBES - 1))"
    "int 3674160 - 1 \<in> set (right_path 0 (int NUMBER_OF_CUBES - 1))"
    "int 1 - 1 \<notin> set (right_path 0 (int NUMBER_OF_CUBES - 1))"
    unfolding right_path_table by simp_all
  have c: "cube_at (counting_table 3674159) 6 = 7" "cube_at (counting_table 3674159) 3674158 = 3674159"
    "cube_at (counting_table 3674160) 3674159 = 3674160"
    using k by (simp_all add: cube_at_counting_table NUMBER_OF_CUBES_def)
  have t: "counting_table 3674159 ! (6 * 5 + 4) = 1" "counting_table 3674159 ! (3674158 * 5 + 4) = 1"
    "counting_table 3674160 ! (3674159 * 5 + 4) = 1"
    using turn_at_counting_table [OF k(1), of 6] turn_at_counting_table [OF k(1), of 3674158]
      turn_at_counting_table [OF k(2), of 3674159] by simp_all
  have a: "\<forall>i < NUMBER_OF_CUBES. cube_at (counting_table 3674159) i \<noteq> 3674160"
    using k(1) by (simp add: cube_at_counting_table NUMBER_OF_CUBES_def)
  have 1: "get_turn (counting_table 3674159) 7 = 1"
    using get_turn_filled_slots [of "counting_table 3674159" 7 3674159 6] s(1) p(1) c(1) t(1) by simp
  have 2: "get_turn (counting_table 3674159) 3674159 = 1"
    using get_turn_filled_slots [of "counting_table 3674159" 3674159 3674159 3674158] s(1) p(1) c(2) t(2)
    by simp
  have 3: "get_turn (counting_table 3674159) 3674160 = - 1"
    using get_turn_filled_slots [of "counting_table 3674159" 3674160] a by simp
  have 4: "get_turn (counting_table 3674160) 3674160 = 1"
    using get_turn_filled_slots [of "counting_table 3674160" 3674160 3674160 3674159] s(2) p(2) c(3) t(3)
    by simp
  have o: "sorted_slots (table_of [(SOLVED_CUBE, 1)]) 1" by (simp add: sorted_slots_def)
  have e: "\<forall>i. 1 \<le> i \<and> i < NUMBER_OF_CUBES \<longrightarrow>
      cube_at (table_of [(SOLVED_CUBE, 1)]) i < cube_at (table_of [(SOLVED_CUBE, 1)]) (1 - 1)"
  proof (intro allI impI)
    fix i :: nat assume "1 \<le> i \<and> i < NUMBER_OF_CUBES"
    then show "cube_at (table_of [(SOLVED_CUBE, 1)]) i < cube_at (table_of [(SOLVED_CUBE, 1)]) (1 - 1)"
      using one_record_slots [of i] one_record_slots [of 0] by (simp add: SOLVED_CUBE_def)
  qed
  have z: "cube_at (table_of [(SOLVED_CUBE, 1)]) (1 - 1) = SOLVED_CUBE"
    using one_record_slots [of 0] by (simp add: NUMBER_OF_CUBES_def)
  have 5: "get_turn (table_of [(SOLVED_CUBE, 1)]) SOLVED_CUBE = - 1"
    using get_turn_filled_slots [of "table_of [(SOLVED_CUBE, 1)]" _ 1] o p(3) e z
    by (simp add: NUMBER_OF_CUBES_def)
  show ?thesis using s(1) p(1,3) c(1) t(1) 1 2 3 4 o 5 by simp
qed

text \<open>
  The table with one record, the solved cube in slot 0, as \<open>add_state\<close> leaves the empty
  table: its filled records are in ascending order, and \<open>get_turn\<close> does not find the
  record.
\<close>

theorem get_turn_partial_table_counterexample:
  "add_state make_state_table SOLVED_CUBE 1 = Some (1, table_of [(SOLVED_CUBE, 1)]) \<and>
   cube_at (table_of [(SOLVED_CUBE, 1)]) 0 = SOLVED_CUBE \<and>
   table_of [(SOLVED_CUBE, 1)] ! 4 = 1 \<and>
   get_turn (table_of [(SOLVED_CUBE, 1)]) SOLVED_CUBE = - 1"
proof -
  have n: "(0::nat) < NUMBER_OF_CUBES" "length [(SOLVED_CUBE, 1::byte)] \<le> NUMBER_OF_CUBES"
    by (simp_all add: NUMBER_OF_CUBES_def)
  have 1: "add_state make_state_table SOLVED_CUBE 1 = Some (1, table_of [(SOLVED_CUBE, 1)])"
    unfolding make_state_table_of
    by (subst add_state_table_of)
      (simp_all add: cubes32_def SOLVED_CUBE_def find_result_def find_pos_def NUMBER_OF_CUBES_def
        insert_at_def)
  have ca: "\<And>s. s < NUMBER_OF_CUBES \<Longrightarrow>
      cube_at (table_of [(SOLVED_CUBE, 1)]) s = (if s < 1 then SOLVED_CUBE else 0)"
    by (subst cube_at_table_of) (auto simp: NUMBER_OF_CUBES_def SOLVED_CUBE_def)
  have 2: "cube_at (table_of [(SOLVED_CUBE, 1)]) 0 = SOLVED_CUBE" using ca [OF n(1)] by simp
  have 3: "table_of [(SOLVED_CUBE, 1)] ! 4 = 1"
    using table_of_slot_bytes(5) [OF n(2), of 0] by simp
  have s0: "0 < SOLVED_CUBE" by (simp add: SOLVED_CUBE_def)
  have m: "(1837079::nat) < NUMBER_OF_CUBES" by (simp add: NUMBER_OF_CUBES_def)
  have 4: "get_turn (table_of [(SOLVED_CUBE, 1)]) SOLVED_CUBE = - 1"
  proof (rule get_turn_first_right)
    show "cube_at (table_of [(SOLVED_CUBE, 1)]) 1837079 < SOLVED_CUBE"
      using ca [OF m] s0 by simp
    fix k :: nat assume "1837080 \<le> k" "k < NUMBER_OF_CUBES"
    then show "cube_at (table_of [(SOLVED_CUBE, 1)]) k \<noteq> SOLVED_CUBE"
      using ca [of k] s0 by simp
  qed
  show ?thesis using 1 2 3 4 by simp
qed

section \<open>solve\_cube\<close>

lemma solve_loop_not_found:
  "get_turn t c = - 1 \<Longrightarrow> solve_loop t c buf count = Some Null"
  by (subst solve_loop.simps) simp

lemma solve_loop_zero:
  "get_turn t c = 0 \<Longrightarrow> count < length buf \<Longrightarrow>
   solve_loop t c buf count = Some (Turns (buf[count := 0]))"
  by (subst solve_loop.simps) (simp add: perform_turn_def)

lemma get_turn_empty_table: "0 < c \<Longrightarrow> get_turn make_state_table c = - 1"
proof (rule get_turn_first_right)
  have ca: "\<And>s. s < NUMBER_OF_CUBES \<Longrightarrow> cube_at make_state_table s = 0"
    unfolding make_state_table_of by (subst cube_at_table_of) simp_all
  assume c: "0 < c"
  show "cube_at make_state_table 1837079 < c" using ca [of 1837079] c by (simp add: NUMBER_OF_CUBES_def)
  fix m :: nat assume "1837080 \<le> m" "m < NUMBER_OF_CUBES"
  then show "cube_at make_state_table m \<noteq> c" using ca [of m] c by simp
qed

lemma get_turn_empty_table_zero: "get_turn make_state_table 0 = 0"
proof -
  have m: "(1837079::nat) < NUMBER_OF_CUBES" by (simp add: NUMBER_OF_CUBES_def)
  have ca: "cube_at make_state_table 1837079 = 0"
    unfolding make_state_table_of by (subst cube_at_table_of) (simp_all add: m)
  have z: "make_state_table ! (1837079 * 5 + 4) = 0"
    unfolding make_state_table_of using table_of_slot_empty(5) [of "[]" 1837079] m by simp
  show ?thesis
    unfolding get_turn_def
    by (subst get_turn_loop.simps) (use ca z in \<open>simp add: NUMBER_OF_CUBES_def sdiv_nonneg Let_def\<close>)
qed

text \<open>
  C8, as the code has it. When \<open>get_turn\<close> reports not found, \<open>solve_cube\<close> returns
  \<open>NULL\<close>, whatever the cube: it never asks whether the cube is the solved one. The
  successful end of the loop is a record whose turn is 0: the buffer is returned with
  a 0 at \<open>count\<close>, so that \<open>solve_cube\<close> returns the empty sequence when the first
  lookup finds the turn 0.
\<close>

theorem solve_cube_not_found:
  "(get_turn t c = - 1 \<longrightarrow> solve_loop t c buf count = Some Null \<and> solve_cube c t = Some Null) \<and>
   (get_turn t c = 0 \<and> count < length buf \<longrightarrow>
      solve_loop t c buf count = Some (Turns (buf[count := 0]))) \<and>
   (get_turn t c = 0 \<longrightarrow>
      solve_cube c t = Some (Turns (replicate 15 0)) \<and> turns_read (replicate 15 0) = [])"
  by (auto simp: solve_cube_def solve_loop_not_found solve_loop_zero turns_read_def
      list_update_same_conv)

theorem solve_cube_not_found_witness:
  "get_turn make_state_table 1607621429 = - 1 \<and>
   solve_loop make_state_table 1607621429 [2, 0, 0] 1 = Some Null \<and>
   solve_cube 1607621429 make_state_table = Some Null \<and>
   (get_turn make_state_table 0 = 0 \<and> (1::nat) < length [2, 0, 0 :: byte]) \<and>
   solve_loop make_state_table 0 [2, 0, 0] 1 = Some (Turns [2, 0, 0]) \<and>
   solve_cube 0 make_state_table = Some (Turns (replicate 15 0))"
  using solve_cube_not_found [of make_state_table 1607621429 "[2, 0, 0]" 1]
    solve_cube_not_found [of make_state_table 0 "[2, 0, 0]" 1]
    get_turn_empty_table [of 1607621429] get_turn_empty_table_zero
  by simp

text \<open>
  The solved cube looked up in a table with no record for it (the empty table): not
  found, and \<open>solve_cube\<close> returns \<open>NULL\<close>, not the empty sequence.
\<close>

theorem solve_cube_solved_counterexample:
  "get_turn make_state_table SOLVED_CUBE = - 1 \<and>
   solve_cube SOLVED_CUBE make_state_table = Some Null"
  using get_turn_empty_table [of SOLVED_CUBE]
  by (simp add: solve_cube_def solve_loop_not_found SOLVED_CUBE_def)

section \<open>The loop of fill\_state\_table\<close>

lemma rotate_minus_one: "rotate_cube (- 1) turn = None"
  by (simp add: rotate_cube_def turn_entry_def signed_divide_int_def signed_modulo_int_def
      c21_6_def c21_5_def c21_4_def c21_3_def c21_2_def c21_1_def Option.bind_eq_None_conv)

text \<open>
  On an exhausted queue \<open>peek\<close> returns \<open>-1\<close>, which is not 0: the test of the
  \<open>while\<close> loop holds and the body runs. \<open>dequeue\<close> returns \<open>-1\<close> as well, and
  \<open>frontC(-1)\<close> reads \<open>turn_table[1][-1]\<close>, outside the row.
\<close>

lemma exhausted_step:
  assumes "cells_used (fqueue s) \<le> 0"
  shows "fst (peek (fqueue s)) = - 1 \<and> fst (dequeue (snd (peek (fqueue s)))) = - 1 \<and>
    frontC (- 1) = None \<and> fill_loop (Suc n) s = Undefined"
proof -
  have p: "peek (fqueue s) = (- 1, (fqueue s)\<lparr>cells_used := 0\<rparr>)"
    using assms by (simp add: peek_def)
  have d: "dequeue ((fqueue s)\<lparr>cells_used := 0\<rparr>) = (- 1, (fqueue s)\<lparr>cells_used := 0\<rparr>)"
    by (simp add: dequeue_def)
  have f: "frontC (- 1) = None" by (simp add: frontC_def rotate_minus_one)
  have b: "fill_body (s\<lparr>fqueue := (fqueue s)\<lparr>cells_used := 0\<rparr>\<rparr>) = None"
    by (simp add: fill_body_def d f)
  show ?thesis using p d f b by simp
qed

section \<open>Legal cubes\<close>

text \<open>
  Every reachable cube has its seven pieces in seven different positions, and the sum of
  the seven orientations is divisible by 3. There are at most \<open>7! * 3 ^ 6\<close> such cubes.
\<close>

definition positions :: "int \<Rightarrow> int list" where
  "positions c = map (\<lambda>d. d div 3) (digits 7 c)"

definition orientations :: "int \<Rightarrow> int list" where
  "orientations c = map (\<lambda>d. d mod 3) (digits 7 c)"

definition legal :: "int \<Rightarrow> bool" where
  "legal c = (c \<in> config_space \<and> distinct (positions c) \<and> sum_list (orientations c) mod 3 = 0)"

definition pos_of :: "nat \<Rightarrow> int \<Rightarrow> int" where
  "pos_of turn p = perm_state turn (3 * p) div 3"

definition twist :: "nat \<Rightarrow> int \<Rightarrow> int" where
  "twist turn p = perm_state turn (3 * p) mod 3"

lemma perm_state_split_all:
  "list_all (\<lambda>t. list_all (\<lambda>d. perm_state t d div 3 = pos_of t (d div 3) \<and>
      perm_state t d mod 3 = (d mod 3 + twist t (d div 3)) mod 3) [0..20]) [0..<6]"
  by code_simp

lemma perm_state_split:
  assumes "turn < 6" "dig d"
  shows "perm_state turn d div 3 = pos_of turn (d div 3)"
    and "perm_state turn d mod 3 = (d mod 3 + twist turn (d div 3)) mod 3"
  using perm_state_split_all assms unfolding dig_cases turn_cases list_all_iff by blast+

lemma pos_of_twist_all:
  "list_all (\<lambda>t. distinct (map (pos_of t) [0..6]) \<and> sum_list (map (twist t) [0..6]) mod 3 = 0 \<and>
      list_all (\<lambda>p. 0 \<le> pos_of t p \<and> pos_of t p < 7) [0..6]) [0..<6]"
  by code_simp

lemma pos_of_inj: "turn < 6 \<Longrightarrow> inj_on (pos_of turn) {0..6}"
  using pos_of_twist_all unfolding turn_cases list_all_iff
  by (metis distinct_map set_upto)

lemma twist_sum: "turn < 6 \<Longrightarrow> sum_list (map (twist turn) [0..6]) mod 3 = 0"
  using pos_of_twist_all unfolding turn_cases list_all_iff by blast

lemma solved_legal: "legal SOLVED_CUBE"
proof -
  have "distinct (positions 1607666046) \<and> sum_list (orientations 1607666046) mod 3 = 0"
    by code_simp
  then show ?thesis using solved_in_space by (simp add: legal_def SOLVED_CUBE_def)
qed
lemma dig_div3: "dig d \<Longrightarrow> d div 3 \<in> {0..6}"
  by (auto simp: dig_def)

lemma positions_range: "set (positions c) \<subseteq> {0..6}"
  unfolding positions_def using digits_dig [of _ 7 c] dig_div3 by auto

lemma length_positions [simp]: "length (positions c) = 7"
  by (simp add: positions_def)

lemma positions_set: "distinct (positions c) \<Longrightarrow> set (positions c) = {0..6}"
proof -
  assume d: "distinct (positions c)"
  have "card (set (positions c)) = 7" using distinct_card [OF d] by simp
  then show ?thesis using positions_range [of c] by (intro card_subset_eq) simp_all
qed

lemma sum_list_mod3: "sum_list (map (\<lambda>x. (f x :: int) mod 3) xs) mod 3 = sum_list (map f xs) mod 3"
proof (induction xs)
  case Nil
  then show ?case by simp
next
  case (Cons x xs)
  have "(f x mod 3 + sum_list (map (\<lambda>x. f x mod 3) xs)) mod 3 =
      (f x mod 3 + sum_list (map (\<lambda>x. f x mod 3) xs) mod 3) mod 3"
    by (simp only: mod_add_right_eq)
  also have "\<dots> = (f x mod 3 + sum_list (map f xs) mod 3) mod 3" by (simp only: Cons.IH)
  also have "\<dots> = (f x + sum_list (map f xs)) mod 3" by (simp only: mod_add_eq)
  finally show ?case by simp
qed

lemma rotate_legal:
  assumes l: "legal c" and t: "turn < 6" and r: "rotate_cube c turn = Some c'"
  shows "legal c'"
proof -
  have c: "c \<in> config_space" using l by (simp add: legal_def)
  have c': "c' \<in> config_space" and ds: "digits 7 c' = map (perm_state turn) (digits 7 c)"
    using rotate_in_space [OF c t r] by simp_all
  have dg: "\<And>d. d \<in> set (digits 7 c) \<Longrightarrow> dig d" by (rule digits_dig)
  have p: "positions c' = map (pos_of turn) (positions c)"
    unfolding positions_def ds using perm_state_split(1) [OF t dg] by simp
  have dp: "distinct (positions c)" using l by (simp add: legal_def)
  have "inj_on (pos_of turn) (set (positions c))"
    using pos_of_inj [OF t] positions_range [of c] by (rule inj_on_subset)
  then have 1: "distinct (positions c')" unfolding p using dp by (simp add: distinct_map)
  have o: "orientations c' = map (\<lambda>d. (d mod 3 + twist turn (d div 3)) mod 3) (digits 7 c)"
    unfolding orientations_def ds using perm_state_split(2) [OF t dg] by simp
  have "sum_list (orientations c') mod 3 =
      sum_list (map (\<lambda>d. d mod 3 + twist turn (d div 3)) (digits 7 c)) mod 3"
    unfolding o by (rule sum_list_mod3)
  also have "sum_list (map (\<lambda>d. d mod 3 + twist turn (d div 3)) (digits 7 c)) =
      sum_list (orientations c) + sum_list (map (twist turn) (positions c))"
    by (simp add: orientations_def positions_def sum_list_addf comp_def)
  also have "sum_list (map (twist turn) (positions c)) = sum (twist turn) {0..6}"
    using sum_list_distinct_conv_sum_set [OF dp, of "twist turn"] positions_set [OF dp] by simp
  also have "sum (twist turn) {0..6} = sum_list (map (twist turn) [0..6])"
    using sum_list_distinct_conv_sum_set [of "[0..6]" "twist turn"] by simp
  finally have "sum_list (orientations c') mod 3 =
      (sum_list (orientations c) mod 3 + sum_list (map (twist turn) [0..6]) mod 3) mod 3"
    by (simp only: mod_add_eq)
  then have 2: "sum_list (orientations c') mod 3 = 0"
    using l twist_sum [OF t] by (simp add: legal_def)
  show ?thesis using c' 1 2 by (simp add: legal_def)
qed

lemma reachable_legal: "reachable c \<Longrightarrow> legal c"
  by (induction rule: reachable.induct) (auto simp: solved_legal intro: rotate_legal)

lemma legal_nonzero: "legal c \<Longrightarrow> c \<noteq> 0"
proof
  assume "legal c" "c = 0"
  then have "distinct (positions 0)" by (simp add: legal_def)
  moreover have "positions 0 = [0, 0, 0, 0, 0, 0, 0]" by code_simp
  ultimately show False by simp
qed

lemma legal_range: "legal c \<Longrightarrow> 0 < c \<and> c < 4294967296"
proof -
  assume l: "legal c"
  then have "0 \<le> c" "c < 21 ^ 7" by (simp_all add: legal_def config_space_def)
  then show ?thesis using legal_nonzero [OF l] by simp
qed
lemma parts_join:
  "map (\<lambda>(p, r). 3 * p + r) (zip (map (\<lambda>d. d div 3) ds) (map (\<lambda>d. d mod 3) ds)) = (ds :: int list)"
  by (induction ds) simp_all

lemma digits_from_parts:
  "digits 7 c = map (\<lambda>(p, r). 3 * p + r) (zip (positions c) (orientations c))"
  unfolding positions_def orientations_def by (simp only: parts_join)

lemma split_last7: "length xs = 7 \<Longrightarrow> xs = take 6 xs @ [xs ! 6]"
proof -
  assume l: "length xs = 7"
  have "take (Suc 6) xs = take 6 xs @ [xs ! 6]" by (rule take_Suc_conv_app_nth) (simp add: l)
  then show ?thesis using l by simp
qed

lemma last_orientation:
  assumes "legal c"
  shows "orientations c ! 6 = (- sum_list (take 6 (orientations c))) mod 3"
proof -
  let ?os = "orientations c"
  have len: "length ?os = 7" by (simp add: orientations_def)
  have "?os = take 6 ?os @ [?os ! 6]"
    using len by (rule split_last7)
  then have "sum_list ?os = sum_list (take 6 ?os @ [?os ! 6])" by simp
  then have "sum_list ?os = sum_list (take 6 ?os) + ?os ! 6" by (simp only: sum_list_append sum_list.Cons sum_list.Nil add_0_right)
  then have s: "(sum_list (take 6 ?os) + ?os ! 6) mod 3 = 0" using assms by (simp add: legal_def)
  have "?os ! 6 \<in> set ?os" using len by simp
  then have r: "0 \<le> ?os ! 6 \<and> ?os ! 6 < 3" by (auto simp: orientations_def)
  define x where "x = ?os ! 6"
  define y where "y = sum_list (take 6 ?os)"
  have "(y + x) mod 3 = 0" "0 \<le> x \<and> x < 3" using s r by (simp_all add: x_def y_def)
  then have "x = (- y) mod 3" by presburger
  then show ?thesis by (simp add: x_def y_def)
qed

definition cube_key :: "int \<Rightarrow> int list \<times> int list" where
  "cube_key c = (positions c, take 6 (orientations c))"

lemma cube_key_inj: "inj_on cube_key {c. legal c}"
proof (rule inj_onI)
  fix c c' assume l: "c \<in> {c. legal c}" "c' \<in> {c. legal c}" and k: "cube_key c = cube_key c'"
  have p: "positions c = positions c'" and o6: "take 6 (orientations c) = take 6 (orientations c')"
    using k by (simp_all add: cube_key_def)
  have len: "length (orientations c) = 7" "length (orientations c') = 7"
    by (simp_all add: orientations_def)
  have "orientations c ! 6 = orientations c' ! 6"
    using last_orientation l o6 by simp
  moreover have "orientations c = take 6 (orientations c) @ [orientations c ! 6]"
    using len(1) by (rule split_last7)
  moreover have "orientations c' = take 6 (orientations c') @ [orientations c' ! 6]"
    using len(2) by (rule split_last7)
  ultimately have o: "orientations c = orientations c'" using o6 by metis
  have "digits 7 c = digits 7 c'" by (simp only: digits_from_parts p o)
  moreover have "undigits (digits 7 c) = c" "undigits (digits 7 c') = c'"
    using l by (simp_all add: legal_def config_space_def undigits_digits)
  ultimately show "c = c'" by metis
qed

lemma cube_key_range:
  "cube_key ` {c. legal c} \<subseteq>
     {ps. length ps = 7 \<and> distinct ps \<and> set ps \<subseteq> {0..6}} \<times> {rs. set rs \<subseteq> {0..2} \<and> length rs = 6}"
proof -
  have "\<And>c. set (take 6 (orientations c)) \<subseteq> {0..2}"
  proof -
    fix c
    have "set (take 6 (orientations c)) \<subseteq> set (orientations c)" by (rule set_take_subset)
    also have "\<dots> \<subseteq> {0..2}" by (auto simp: orientations_def)
    finally show "set (take 6 (orientations c)) \<subseteq> {0..2}" .
  qed
  then show ?thesis
    using positions_range by (auto simp: cube_key_def legal_def orientations_def)
qed

lemma card_position_lists:
  "card {ps :: int list. length ps = 7 \<and> distinct ps \<and> set ps \<subseteq> {0..6}} = 5040"
proof -
  have "card {ps :: int list. length ps = 7 \<and> distinct ps \<and> set ps \<subseteq> {0..6}} =
      \<Prod>{card {0..6::int} - 7 + 1 .. card {0..6::int}}"
    by (rule card_lists_distinct_length_eq) simp_all
  also have "\<dots> = \<Prod>{1..7::nat}" by simp
  also have "\<dots> = fact 7" by (simp add: fact_prod)
  also have "\<dots> = 5040" by (simp add: fact_numeral)
  finally show ?thesis .
qed

lemma card_orientation_lists:
  "card {rs :: int list. set rs \<subseteq> {0..2} \<and> length rs = 6} = 729"
  using card_lists_length_eq [of "{0..2::int}" 6] by simp

lemma finite_legal: "finite {c. legal c}"
proof (rule finite_subset)
  show "{c. legal c} \<subseteq> config_space" by (auto simp: legal_def)
  show "finite config_space" by (simp add: config_space_def)
qed

lemma card_legal: "card {c. legal c} \<le> NUMBER_OF_CUBES"
proof -
  let ?A = "{ps :: int list. length ps = 7 \<and> distinct ps \<and> set ps \<subseteq> {0..6}}"
  let ?B = "{rs :: int list. set rs \<subseteq> {0..2} \<and> length rs = 6}"
  have "finite {ps :: int list. set ps \<subseteq> {0..6} \<and> length ps = 7}"
    by (rule finite_lists_length_eq) simp
  then have fA: "finite ?A" by (rule rev_finite_subset) auto
  have fB: "finite ?B" by (rule finite_lists_length_eq) simp
  have "card {c. legal c} = card (cube_key ` {c. legal c})"
    using card_image [OF cube_key_inj] by simp
  also have "\<dots> \<le> card (?A \<times> ?B)"
  proof (rule card_mono)
    show "finite (?A \<times> ?B)" using fA fB by (rule finite_cartesian_product)
    show "cube_key ` {c. legal c} \<subseteq> ?A \<times> ?B" by (rule cube_key_range)
  qed
  also have "\<dots> = card ?A * card ?B" by (rule card_cartesian_product)
  also have "\<dots> = 5040 * 729" by (simp only: card_position_lists card_orientation_lists)
  finally show ?thesis by (simp add: NUMBER_OF_CUBES_def)
qed

section \<open>Every legal cube is reachable\<close>

text \<open>A sequence of turns applied to a cube, and to one piece state.\<close>

fun turns :: "nat list \<Rightarrow> int \<Rightarrow> int option" where
  "turns [] c = Some c"
| "turns (t # ts) c = rotate_cube c t \<bind> turns ts"

definition word_state :: "nat list \<Rightarrow> int \<Rightarrow> int" where
  "word_state w s = foldl (\<lambda>s t. perm_state t s) s w"

definition solved_states :: "int list" where
  "solved_states = [0, 5, 6, 9, 13, 15, 18]"

text \<open>
  For each of the first six pieces \<open>k\<close> and each state \<open>s\<close> that piece can be in when
  the pieces before it are in their solved states, a sequence of turns that leaves the
  solved states of the pieces before \<open>k\<close> where they are and takes \<open>s\<close> to the solved
  state of piece \<open>k\<close>.
\<close>

definition chain_words :: "(int \<times> nat list) list list" where
  "chain_words =
    [[(0, []), (1, [4, 0]), (2, [3, 1]), (3, [1, 3, 1]), (4, [1]), (5, [2]), (6, [5, 3, 1]),
      (7, [5]), (8, [0]), (9, [1, 1]), (10, [1, 2]), (11, [0, 5]), (12, [3, 3, 1]), (13, [3]),
      (14, [4]), (15, [3, 3]), (16, [3, 4]), (17, [2, 1]), (18, [5, 5]), (19, [5, 0]),
      (20, [4, 3])],
     [(3, [2, 1, 1, 4, 3, 1]), (4, [4, 0, 5, 1, 1, 3]), (5, []), (6, [2, 1, 4, 3, 1]),
      (7, [0, 4, 3, 1, 2, 1]), (8, [2, 0, 3]), (9, [2, 1, 1, 3]), (10, [5, 1, 4]),
      (11, [1, 2, 0]), (12, [1, 1, 3, 4, 1, 1]), (13, [1, 2, 5, 0, 2]), (14, [1, 3, 0]),
      (15, [4, 2, 5]), (16, [1, 3, 3, 0]), (17, [2, 1, 3]), (18, [3, 1, 4, 3, 0]),
      (19, [3, 4, 1, 4, 0]), (20, [4, 3, 3, 5])],
     [(6, []), (7, [0, 5, 5, 2, 1, 5]), (8, [4, 0, 3, 5, 5, 1]), (9, [0, 5, 1]),
      (10, [5, 3, 0, 2]), (11, [1, 1, 2, 1, 4, 1]), (12, [0, 4, 1]), (13, [5, 3, 0, 5, 2]),
      (14, [0, 3, 4, 2, 5, 1]), (15, [3, 5, 5, 2]), (16, [3, 3, 1, 3, 3]),
      (17, [4, 0, 3, 4, 1]), (18, [4, 0, 3, 1]), (19, [0, 5, 5, 1]), (20, [3, 5, 2])],
     [(9, []), (10, [0, 3, 4, 2, 4, 0, 3, 1, 1]), (11, [1, 4, 3, 5, 3, 1, 4, 1, 1]),
      (12, [5, 0, 3, 5, 3, 3, 1]), (13, [1, 4, 3, 5, 0]), (14, [0, 3, 4, 2, 1]),
      (15, [3, 4, 3, 0, 2, 5, 2]), (16, [1, 3, 1, 4, 1, 1]), (17, [1, 4, 2, 5, 0]),
      (18, [4, 3, 4, 1, 5, 2, 5]), (19, [0, 3, 5, 2, 1]), (20, [0, 4, 0, 3, 1, 1])],
     [(12, [4, 0, 4, 3, 5, 3, 1]), (13, []), (14, [2, 4, 2, 5, 1, 5, 0]),
      (15, [3, 0, 4, 1, 2, 0, 5, 1]), (16, [3, 1, 4, 0, 4, 2, 5]), (17, [4, 3, 5, 1, 5, 0, 2]),
      (18, [3, 4, 2, 0, 2, 1, 5]), (19, [4, 0, 3, 1, 3, 5, 2]), (20, [3, 0, 4, 2, 0, 5, 3, 1])],
     [(15, []), (16, [4, 1, 4, 1, 4, 0, 3, 0, 3, 0, 3, 1]),
      (17, [5, 0, 5, 0, 2, 1, 4, 3, 5, 3, 3, 1]), (18, [5, 2, 1, 3, 4, 2, 1, 5, 1, 4, 1, 1, 3]),
      (19, [3, 1, 5, 5, 0, 3, 5, 1, 2, 5, 3, 1, 1]),
      (20, [3, 5, 3, 3, 4, 1, 5, 1, 2, 1, 3, 1, 1])]]"

definition chain_ok :: "nat \<Rightarrow> int \<Rightarrow> bool" where
  "chain_ok k s =
     (s div 3 \<in> set (map (\<lambda>d. d div 3) (take k solved_states)) \<or>
      (case map_of (chain_words ! k) s of
         None \<Rightarrow> False
       | Some w \<Rightarrow> list_all (\<lambda>t. t < 6) w \<and>
           map (word_state w) (take k solved_states) = take k solved_states \<and>
           word_state w s = solved_states ! k))"

lemma digits_solved: "digits 7 SOLVED_CUBE = solved_states"
  by (simp add: SOLVED_CUBE_def solved_states_def eval_nat_numeral)

lemma chain_all: "list_all (\<lambda>k. list_all (chain_ok k) [0..20]) [0..<6]"
  by code_simp

lemma chain_step:
  assumes "k < 6" "dig s" "s div 3 \<notin> set (map (\<lambda>d. d div 3) (take k solved_states))"
  shows "\<exists>w. (\<forall>t\<in>set w. t < 6) \<and> map (word_state w) (take k solved_states) = take k solved_states \<and>
    word_state w s = solved_states ! k"
proof -
  have "chain_ok k s"
    using chain_all assms(1,2) unfolding dig_cases turn_cases list_all_iff by blast
  then show ?thesis using assms(3) by (auto simp: chain_ok_def list_all_iff split: option.splits)
qed

lemma word_state_Cons: "word_state (t # w) s = word_state w (perm_state t s)"
  by (simp add: word_state_def)

lemma turns_digits:
  "c \<in> config_space \<Longrightarrow> \<forall>t\<in>set w. t < 6 \<Longrightarrow>
   \<exists>c'\<in>config_space. turns w c = Some c' \<and> digits 7 c' = map (word_state w) (digits 7 c)"
proof (induction w arbitrary: c)
  case Nil
  then show ?case by (simp add: word_state_def)
next
  case (Cons t w)
  have t: "t < 6" using Cons.prems(2) by simp
  obtain c1 where c1: "c1 \<in> config_space" "rotate_cube c t = Some c1"
    using rotate_total [OF t Cons.prems(1)] by blast
  have d1: "digits 7 c1 = map (perm_state t) (digits 7 c)"
    using rotate_in_space [OF Cons.prems(1) t c1(2)] by simp
  obtain c' where c': "c' \<in> config_space" "turns w c1 = Some c'"
    "digits 7 c' = map (word_state w) (digits 7 c1)"
    using Cons.IH [OF c1(1)] Cons.prems(2) by auto
  show ?case using c1 c' d1 by (simp add: word_state_Cons comp_def)
qed

lemma turns_append: "turns (u @ v) c = turns u c \<bind> turns v"
proof (induction u arbitrary: c)
  case Nil
  then show ?case by simp
next
  case (Cons t u)
  then show ?case by (cases "rotate_cube c t") simp_all
qed

lemma turns_legal:
  "legal c \<Longrightarrow> \<forall>t\<in>set w. t < 6 \<Longrightarrow> turns w c = Some c' \<Longrightarrow> legal c'"
proof (induction w arbitrary: c)
  case Nil
  then show ?case by simp
next
  case (Cons t w)
  then obtain c1 where c1: "rotate_cube c t = Some c1" "turns w c1 = Some c'"
    by (auto simp: bind_eq_Some_conv)
  have "legal c1" using rotate_legal [OF Cons.prems(1) _ c1(1)] Cons.prems(2) by simp
  then show ?case using Cons.IH [OF _ _ c1(2)] Cons.prems(2) by simp
qed

lemma turns_reachable:
  "reachable c \<Longrightarrow> \<forall>t\<in>set w. t < 6 \<Longrightarrow> turns w c = Some c' \<Longrightarrow> reachable c'"
proof (induction w arbitrary: c)
  case Nil
  then show ?case by simp
next
  case (Cons t w)
  then obtain c1 where c1: "rotate_cube c t = Some c1" "turns w c1 = Some c'"
    by (auto simp: bind_eq_Some_conv)
  have "reachable c1" using reachable_turn [OF Cons.prems(1) _ c1(1)] Cons.prems(2) by simp
  then show ?case using Cons.IH [OF _ _ c1(2)] Cons.prems(2) by simp
qed

lemma partner_less6: "t < 6 \<Longrightarrow> partner t < 6"
  by (auto simp: partner_def elim: oddE)

lemma turns_back:
  "c \<in> config_space \<Longrightarrow> \<forall>t\<in>set w. t < 6 \<Longrightarrow> turns w c = Some c' \<Longrightarrow>
   turns (rev (map partner w)) c' = Some c"
proof (induction w arbitrary: c)
  case Nil
  then show ?case by simp
next
  case (Cons t w)
  have t: "t < 6" using Cons.prems(2) by simp
  obtain c1 where c1: "rotate_cube c t = Some c1" "turns w c1 = Some c'"
    using Cons.prems(3) by (auto simp: bind_eq_Some_conv)
  have s1: "c1 \<in> config_space" using rotate_in_space [OF Cons.prems(1) t c1(1)] by simp
  have b: "turns (rev (map partner w)) c' = Some c1"
    using Cons.IH [OF s1 _ c1(2)] Cons.prems(2) by simp
  have "rotate_cube c1 (partner t) = Some c"
    using rotate_partner [OF Cons.prems(1) t] c1(1) by simp
  then show ?case by (simp add: turns_append b)
qed

lemma level_step:
  assumes l: "legal c" and k: "k < 6" and e: "take k (digits 7 c) = take k solved_states"
  shows "\<exists>w c'. (\<forall>t\<in>set w. t < 6) \<and> turns w c = Some c' \<and> legal c' \<and>
    take (Suc k) (digits 7 c') = take (Suc k) solved_states"
proof -
  have cs: "c \<in> config_space" using l by (simp add: legal_def)
  have k7: "k < length (digits 7 c)" "k < length solved_states"
    using k by (simp_all add: solved_states_def)
  let ?s = "digits 7 c ! k"
  have ds: "dig ?s" using digits_dig [of ?s 7 c] k7(1) by simp
  have "distinct (map (\<lambda>d. d div 3) (digits 7 c))" using l by (simp add: legal_def positions_def)
  then have "distinct (take (Suc k) (map (\<lambda>d. d div 3) (digits 7 c)))" by (rule distinct_take)
  then have "?s div 3 \<notin> set (map (\<lambda>d. d div 3) (take k (digits 7 c)))"
    using k7(1) by (simp add: take_Suc_conv_app_nth take_map)
  then have n: "?s div 3 \<notin> set (map (\<lambda>d. d div 3) (take k solved_states))" unfolding e .
  obtain w where w: "\<forall>t\<in>set w. t < 6"
    "map (word_state w) (take k solved_states) = take k solved_states"
    "word_state w ?s = solved_states ! k"
    using chain_step [OF k ds n] by blast
  obtain c' where c': "turns w c = Some c'" "digits 7 c' = map (word_state w) (digits 7 c)"
    using turns_digits [OF cs w(1)] by blast
  have "take (Suc k) (digits 7 c') =
      map (word_state w) (take k (digits 7 c)) @ [word_state w ?s]"
    unfolding c'(2) using k7(1) by (simp add: take_Suc_conv_app_nth take_map)
  also have "\<dots> = take k solved_states @ [solved_states ! k]" by (simp only: e w(2,3))
  also have "\<dots> = take (Suc k) solved_states" using k7(2) by (simp add: take_Suc_conv_app_nth)
  finally have "take (Suc k) (digits 7 c') = take (Suc k) solved_states" .
  then show ?thesis using w(1) c'(1) turns_legal [OF l w(1) c'(1)] by blast
qed

lemma levels:
  "legal c \<Longrightarrow> k \<le> 6 \<Longrightarrow>
   \<exists>w c'. (\<forall>t\<in>set w. t < 6) \<and> turns w c = Some c' \<and> legal c' \<and>
     take k (digits 7 c') = take k solved_states"
proof (induction k)
  case 0
  have "turns [] c = Some c" by simp
  then show ?case using "0.prems"(1) by (intro exI [of _ "[]"] exI [of _ c]) simp
next
  case (Suc k)
  obtain u c1 where u: "\<forall>t\<in>set u. t < 6" "turns u c = Some c1" "legal c1"
    "take k (digits 7 c1) = take k solved_states"
    using Suc.IH [OF Suc.prems(1)] Suc.prems(2) by auto
  have k: "k < 6" using Suc.prems(2) by simp
  obtain v c' where v: "\<forall>t\<in>set v. t < 6" "turns v c1 = Some c'" "legal c'"
    "take (Suc k) (digits 7 c') = take (Suc k) solved_states"
    using level_step [OF u(3) k u(4)] by blast
  have "turns (u @ v) c = Some c'" by (simp add: turns_append u(2) v(2))
  moreover have "\<forall>t\<in>set (u @ v). t < 6" using u(1) v(1) by auto
  ultimately show ?case using v(3,4) by blast
qed

lemma six_fix_cube:
  assumes l: "legal c" and e: "take 6 (digits 7 c) = take 6 solved_states"
  shows "c = SOLVED_CUBE"
proof -
  have p6: "take 6 (positions c) = [0, 1, 2, 3, 4, 5]"
    unfolding positions_def take_map e by (simp add: solved_states_def)
  have o6: "take 6 (orientations c) = take 6 (orientations SOLVED_CUBE)"
    unfolding orientations_def take_map e digits_solved ..
  have d: "distinct (positions c)" using l by (simp add: legal_def)
  have sp: "positions c = take 6 (positions c) @ [positions c ! 6]"
    by (rule split_last7) simp
  have "positions c ! 6 \<in> set (positions c)" by (rule nth_mem) simp
  then have r: "positions c ! 6 \<in> {0..6}" using positions_range [of c] by blast
  have "positions c ! 6 \<notin> set (take 6 (positions c))"
    using d by (subst (asm) sp) simp
  then have "positions c ! 6 \<notin> {0, 1, 2, 3, 4, 5}" by (simp add: p6)
  then have "positions c ! 6 = 6" using r by auto
  then have "positions c = [0, 1, 2, 3, 4, 5, 6]" using sp p6 by simp
  also have "\<dots> = positions SOLVED_CUBE"
    by (simp add: positions_def digits_solved solved_states_def)
  finally have "cube_key c = cube_key SOLVED_CUBE" using o6 by (simp add: cube_key_def)
  then show ?thesis using cube_key_inj l solved_legal by (auto dest: inj_onD)
qed

lemma legal_reachable:
  assumes "legal c"
  shows "reachable c"
proof -
  obtain w c' where w: "\<forall>t\<in>set w. t < 6" "turns w c = Some c'" "legal c'"
    "take 6 (digits 7 c') = take 6 solved_states"
    using levels [OF assms, of 6] by auto
  have c': "c' = SOLVED_CUBE" using six_fix_cube [OF w(3,4)] .
  have cs: "c \<in> config_space" using assms by (simp add: legal_def)
  have b: "turns (rev (map partner w)) SOLVED_CUBE = Some c"
    using turns_back [OF cs w(1)] w(2) c' by simp
  have "\<forall>t\<in>set (rev (map partner w)). t < 6" using w(1) partner_less6 by auto
  then show ?thesis using turns_reachable [OF reachable_solved _ b] by simp
qed

lemma reachable_iff_legal: "reachable c \<longleftrightarrow> legal c"
  using legal_reachable reachable_legal by blast
subsection \<open>The number of legal cubes\<close>

lemma parts_split:
  "length ps = length os \<Longrightarrow> \<forall>r\<in>set os. 0 \<le> r \<and> r < 3 \<Longrightarrow>
   map (\<lambda>d. d div 3) (map (\<lambda>(p, r). 3 * p + r) (zip ps os)) = (ps :: int list) \<and>
   map (\<lambda>d. d mod 3) (map (\<lambda>(p, r). 3 * p + r) (zip ps os)) = os"
  by (induction ps os rule: list_induct2) auto

lemma parts_dig:
  "length ps = length os \<Longrightarrow> \<forall>r\<in>set os. 0 \<le> r \<and> r < 3 \<Longrightarrow> \<forall>p\<in>set ps. 0 \<le> p \<and> p \<le> 6 \<Longrightarrow>
   \<forall>d\<in>set (map (\<lambda>(p, r). 3 * p + r) (zip ps os)). dig d"
  by (induction ps os rule: list_induct2) (auto simp: dig_def)

lemma cube_key_onto:
  assumes ps: "length ps = 7" "distinct ps" "set ps \<subseteq> {0..6}"
    and rs: "set rs \<subseteq> {0..2}" "length rs = 6"
  shows "\<exists>c. legal c \<and> cube_key c = (ps, rs)"
proof -
  define os where "os = rs @ [(- sum_list rs) mod 3]"
  define ds where "ds = map (\<lambda>(p, r). 3 * p + r) (zip ps os)"
  define c where "c = undigits ds"
  have len: "length ps = length os" using ps(1) rs(2) by (simp add: os_def)
  have r3: "\<forall>r\<in>set os. 0 \<le> r \<and> r < 3" using rs(1) by (auto simp: os_def)
  have p6: "\<forall>p\<in>set ps. 0 \<le> p \<and> p \<le> 6" using ps(3) by auto
  have dg: "\<forall>d\<in>set ds. dig d" unfolding ds_def by (rule parts_dig [OF len r3 p6])
  have l7: "length ds = 7" using ps(1) len by (simp add: ds_def)
  have d7: "digits 7 c = ds" using digits_undigits [OF dg] by (simp add: c_def l7)
  have cs: "c \<in> config_space"
    using undigits_bounds [OF dg] by (simp add: c_def l7 config_space_def)
  have p: "positions c = ps" and o: "orientations c = os"
    using parts_split [OF len r3] by (simp_all add: positions_def orientations_def d7 ds_def)
  have "sum_list os mod 3 = (sum_list rs + (- sum_list rs) mod 3) mod 3" by (simp add: os_def)
  also have "\<dots> = (sum_list rs + - sum_list rs) mod 3" by (simp only: mod_add_right_eq)
  finally have s: "sum_list os mod 3 = 0" by simp
  have "legal c" using cs ps(2) s by (simp add: legal_def p o)
  moreover have "cube_key c = (ps, rs)" using rs(2) by (simp add: cube_key_def p o os_def)
  ultimately show ?thesis by blast
qed

lemma card_legal_eq: "card {c. legal c} = NUMBER_OF_CUBES"
proof -
  let ?A = "{ps :: int list. length ps = 7 \<and> distinct ps \<and> set ps \<subseteq> {0..6}}"
  let ?B = "{rs :: int list. set rs \<subseteq> {0..2} \<and> length rs = 6}"
  have "?A \<times> ?B \<subseteq> cube_key ` {c. legal c}"
  proof
    fix x assume "x \<in> ?A \<times> ?B"
    then obtain ps rs where x: "x = (ps, rs)" "length ps = 7" "distinct ps" "set ps \<subseteq> {0..6}"
      "set rs \<subseteq> {0..2}" "length rs = 6" by auto
    obtain c where "legal c" "cube_key c = (ps, rs)" using cube_key_onto [OF x(2-6)] by blast
    then show "x \<in> cube_key ` {c. legal c}" using x(1) by force
  qed
  then have e: "cube_key ` {c. legal c} = ?A \<times> ?B" using cube_key_range by blast
  have "card {c. legal c} = card (cube_key ` {c. legal c})"
    using card_image [OF cube_key_inj] by simp
  also have "\<dots> = card ?A * card ?B" unfolding e by (rule card_cartesian_product)
  also have "\<dots> = 5040 * 729" by (simp only: card_position_lists card_orientation_lists)
  finally show ?thesis by (simp add: NUMBER_OF_CUBES_def)
qed

lemma card_reachable: "card {c. reachable c} = NUMBER_OF_CUBES"
  using card_legal_eq by (simp add: reachable_iff_legal)

section \<open>The queue as a list\<close>

text \<open>
  The cells in use, from \<open>head\<close> on and around the end of the array, as a list; and
  what every queue of \<open>fill_state_table\<close> satisfies.
\<close>

definition queue_items :: "queue \<Rightarrow> int list" where
  "queue_items q =
     map (\<lambda>i. base q ! ((head q + i) mod NUMBER_OF_CUBES)) [0 ..< nat (cells_used q)]"

definition queue_ok :: "queue \<Rightarrow> bool" where
  "queue_ok q =
     (max_cells q = int NUMBER_OF_CUBES \<and> length (base q) = NUMBER_OF_CUBES \<and>
      head q < NUMBER_OF_CUBES \<and> 0 \<le> cells_used q \<and> cells_used q \<le> int NUMBER_OF_CUBES \<and>
      tail q = (head q + nat (cells_used q)) mod NUMBER_OF_CUBES)"

lemma N_pos: "0 < NUMBER_OF_CUBES"
  by (simp add: NUMBER_OF_CUBES_def)

lemma mod_neq_in_window:
  assumes "i < u" "u < (n::nat)"
  shows "(h + i) mod n \<noteq> (h + u) mod n"
proof
  assume "(h + i) mod n = (h + u) mod n"
  then have "(h + i) mod n = (h + i + (u - i)) mod n" using assms by simp
  then have "n dvd (u - i)"
    by (metis add_diff_cancel_left' mod_eq_dvd_iff_nat le_add1)
  moreover have "0 < u - i" "u - i < n" using assms by simp_all
  ultimately show False by (meson dvd_imp_le not_less)
qed

lemma wrap_mod: "t < n \<Longrightarrow> (if int (t + 1) = int n then 0 else t + 1) = (t + 1) mod (n::nat)"
proof (cases "t + 1 = n")
  case True
  then show ?thesis by simp
next
  case False
  assume "t < n"
  then have "t + 1 < n" using False by simp
  then show ?thesis using False by simp
qed

lemma length_queue_items [simp]: "length (queue_items q) = nat (cells_used q)"
  by (simp add: queue_items_def)

lemma enqueue_ok:
  assumes ok: "queue_ok q" and room: "cells_used q < int NUMBER_OF_CUBES"
  shows "fst (enqueue q x) = 0 \<and> queue_ok (snd (enqueue q x)) \<and>
    queue_items (snd (enqueue q x)) = queue_items q @ [x]"
proof -
  let ?n = "NUMBER_OF_CUBES"
  let ?u = "nat (cells_used q)"
  have u: "?u < ?n" using ok room unfolding queue_ok_def by linarith
  have t: "tail q = (head q + ?u) mod ?n" "tail q < ?n" using ok N_pos by (simp_all add: queue_ok_def)
  define t' where "t' = (if int (tail q + 1) = max_cells q then 0 else tail q + 1)"
  have t': "t' = (head q + (?u + 1)) mod ?n"
  proof -
    have "(head q + (?u + 1)) mod ?n = (tail q + 1) mod ?n"
      unfolding t(1) by (simp add: mod_Suc_eq add.assoc [symmetric])
    also have "\<dots> = t'"
    proof -
      have "max_cells q = int ?n" using ok by (simp add: queue_ok_def)
      then show ?thesis unfolding t'_def using wrap_mod [OF t(2)] by simp
    qed
    finally show ?thesis by simp
  qed
  have e: "enqueue q x = (0, q\<lparr>base := (base q)[tail q := x], tail := t',
      cells_used := cells_used q + 1\<rparr>)"
    using room ok by (simp add: enqueue_def Let_def t'_def queue_ok_def)
  have nu: "nat (cells_used q + 1) = ?u + 1" using ok unfolding queue_ok_def by linarith
  have items: "queue_items (q\<lparr>base := (base q)[tail q := x], tail := t',
      cells_used := cells_used q + 1\<rparr>) = queue_items q @ [x]"
  proof -
    have old: "\<And>i. i < ?u \<Longrightarrow> (base q)[tail q := x] ! ((head q + i) mod ?n) = base q ! ((head q + i) mod ?n)"
    proof -
      fix i assume "i < ?u"
      then have "tail q \<noteq> (head q + i) mod ?n"
        using mod_neq_in_window [OF _ u, of i "head q"] t(1) by simp
      then show "(base q)[tail q := x] ! ((head q + i) mod ?n) = base q ! ((head q + i) mod ?n)"
        by (rule nth_list_update_neq)
    qed
    have new: "(base q)[tail q := x] ! ((head q + ?u) mod ?n) = x"
      unfolding t(1) [symmetric] using t(2) ok by (simp add: queue_ok_def)
    show ?thesis
      unfolding queue_items_def using old new by (simp add: nu)
  qed
  show ?thesis
    unfolding e using ok items t' nu room by (simp add: queue_ok_def)
qed

lemma enqueue_full:
  assumes ok: "queue_ok q" and full: "cells_used q = int NUMBER_OF_CUBES"
  shows "enqueue q x = (- 1, q)"
  using assms by (simp add: enqueue_def queue_ok_def)

lemma dequeue_ok:
  assumes ok: "queue_ok q" and some: "0 < cells_used q"
  shows "fst (dequeue q) = hd (queue_items q) \<and> queue_ok (snd (dequeue q)) \<and>
    queue_items (snd (dequeue q)) = tl (queue_items q)"
proof -
  let ?n = "NUMBER_OF_CUBES"
  let ?u = "nat (cells_used q)"
  have h: "head q < ?n" using ok by (simp add: queue_ok_def)
  define h' where "h' = (if int (head q + 1) = max_cells q then 0 else head q + 1)"
  have mc: "max_cells q = int ?n" using ok by (simp add: queue_ok_def)
  have h': "h' = (head q + 1) mod ?n" "h' < ?n"
    unfolding h'_def mc using wrap_mod [OF h] N_pos by simp_all
  have d: "dequeue q = (base q ! head q, q\<lparr>head := h', cells_used := cells_used q - 1\<rparr>)"
    using some by (simp add: dequeue_def Let_def h'_def)
  have u: "?u = Suc (nat (cells_used q - 1))" using some by linarith
  have i0: "queue_items q = base q ! head q #
      map (\<lambda>i. base q ! ((head q + Suc i) mod ?n)) [0 ..< nat (cells_used q - 1)]"
    unfolding queue_items_def
    by (subst u, subst upt_conv_Cons) (use h in \<open>simp_all add: map_Suc_upt [symmetric] del: upt_Suc\<close>)
  have i1: "queue_items (q\<lparr>head := h', cells_used := cells_used q - 1\<rparr>) =
      map (\<lambda>i. base q ! ((head q + Suc i) mod ?n)) [0 ..< nat (cells_used q - 1)]"
    unfolding queue_items_def h'(1) by (simp add: mod_add_left_eq)
  have t: "tail q = (h' + nat (cells_used q - 1)) mod ?n"
  proof -
    have "tail q = (head q + ?u) mod ?n" using ok by (simp add: queue_ok_def)
    also have "\<dots> = (head q + 1 + nat (cells_used q - 1)) mod ?n" by (subst u) simp
    also have "\<dots> = (h' + nat (cells_used q - 1)) mod ?n"
      unfolding h'(1) by (simp add: mod_add_left_eq)
    finally show ?thesis .
  qed
  show ?thesis
    unfolding d using ok some i0 i1 t h' by (simp add: queue_ok_def)
qed

lemma dequeue_empty:
  assumes ok: "queue_ok q" and none: "cells_used q = 0"
  shows "dequeue q = (- 1, q)"
  using assms by (simp add: dequeue_def)

lemma peek_ok:
  assumes ok: "queue_ok q"
  shows "peek q = (if cells_used q = 0 then - 1 else hd (queue_items q), q)"
proof (cases "cells_used q = 0")
  case True
  then show ?thesis by (simp add: peek_def)
next
  case False
  then have some: "0 < cells_used q" using ok by (simp add: queue_ok_def)
  have h: "head q < NUMBER_OF_CUBES" using ok by (simp add: queue_ok_def)
  have u: "nat (cells_used q) = Suc (nat (cells_used q - 1))" using some by linarith
  have "hd (queue_items q) = base q ! head q"
    unfolding queue_items_def by (subst u, subst upt_conv_Cons) (use h in simp_all)
  then show ?thesis using some by (simp add: peek_def)
qed

section \<open>The build as a breadth-first search on lists\<close>

text \<open>
  The state of the loop seen through the two abstractions: the frontier as a list, the
  table as its list of records, and the count. \<open>adiscover\<close>, \<open>abody\<close> and \<open>aloop\<close>
  are \<open>discover\<close>, \<open>fill_body\<close> and \<open>fill_loop\<close> on these.
\<close>

type_synonym astate = "int list \<times> (int \<times> byte) list \<times> int"

definition adiscover :: "astate \<Rightarrow> int \<Rightarrow> byte \<Rightarrow> astate" where
  "adiscover a c turn =
     (case a of (items, rs, cnt) \<Rightarrow>
        if c \<in> fst ` set rs then a
        else (items @ [c], insert_at (find_pos c rs) (c, turn) rs, cnt + 1))"

definition abody :: "astate \<Rightarrow> astate option" where
  "abody a =
     (case a of (items, rs, cnt) \<Rightarrow>
        (case items of
           [] \<Rightarrow> None
         | this_cube # rest \<Rightarrow> do {
             front_C \<leftarrow> frontC this_cube;
             front_CC \<leftarrow> frontCC this_cube;
             left_C \<leftarrow> leftC this_cube;
             left_CC \<leftarrow> leftCC this_cube;
             top_C \<leftarrow> topC this_cube;
             top_CC \<leftarrow> topCC this_cube;
             Some (adiscover (adiscover (adiscover (adiscover (adiscover (adiscover
               (rest, rs, cnt) front_C 1) front_CC 2) left_C 3) left_CC 4) top_C 5) top_CC 6)
           }))"

fun aloop :: "nat \<Rightarrow> astate \<Rightarrow> astate option" where
  "aloop 0 a = Some a"
| "aloop (Suc n) a = (case abody a of None \<Rightarrow> None | Some a' \<Rightarrow> aloop n a')"

definition records_ok :: "(int \<times> byte) list \<Rightarrow> bool" where
  "records_ok rs =
     (sorted_wrt (<) (map fst rs) \<and> (\<forall>r\<in>set rs. reachable (fst r) \<and> 1 \<le> snd r \<and> snd r \<le> 6))"

definition body_inv :: "astate \<Rightarrow> bool" where
  "body_inv a =
     (case a of (items, rs, cnt) \<Rightarrow>
        distinct items \<and> set items \<subseteq> fst ` set rs \<and> records_ok rs \<and> cnt = int (length rs))"

definition head_inv :: "astate \<Rightarrow> bool" where
  "head_inv a = (a = ([SOLVED_CUBE], [], 0) \<or> body_inv a)"

definition refines :: "fill_state \<Rightarrow> astate \<Rightarrow> bool" where
  "refines s a =
     (case a of (items, rs, cnt) \<Rightarrow>
        queue_ok (fqueue s) \<and> queue_items (fqueue s) = items \<and> ftable s = table_of rs \<and>
        fcount s = cnt)"

subsection \<open>Sorted insertion\<close>

lemma insert_at_find_pos:
  "insert_at (find_pos c rs) x rs = takeWhile (\<lambda>r. fst r < c) rs @ x # dropWhile (\<lambda>r. fst r < c) rs"
  by (simp add: insert_at_def find_pos_def takeWhile_eq_take [symmetric] dropWhile_eq_drop [symmetric])

lemma sorted_dropWhile_greater:
  fixes rs :: "(int \<times> byte) list"
  assumes "sorted_wrt (<) (map fst rs)" "c \<notin> fst ` set rs" "r \<in> set (dropWhile (\<lambda>r. fst r < c) rs)"
  shows "c < fst r"
  using assms
proof (induction rs)
  case Nil
  then show ?case by simp
next
  case (Cons a rs)
  show ?case
  proof (cases "fst a < c")
    case True
    then show ?thesis using Cons by auto
  next
    case False
    have "fst a \<noteq> c" using Cons.prems(2) by auto
    then have ca: "c < fst a" using False by simp
    have "r = a \<or> r \<in> set rs" using Cons.prems(3) False by simp
    then show ?thesis using ca Cons.prems(1) by auto
  qed
qed

lemma sorted_insert:
  fixes rs :: "(int \<times> byte) list"
  assumes s: "sorted_wrt (<) (map fst rs)" and n: "c \<notin> fst ` set rs"
  shows "sorted_wrt (<) (map fst (insert_at (find_pos c rs) (c, turn) rs))"
proof -
  let ?P = "\<lambda>r. fst r < c"
  have 1: "sorted_wrt (<) (map fst (takeWhile ?P rs))"
    using s by (metis sorted_wrt_append takeWhile_dropWhile_id map_append)
  have 2: "sorted_wrt (<) (map fst (dropWhile ?P rs))"
    using s by (metis sorted_wrt_append takeWhile_dropWhile_id map_append)
  have 3: "\<forall>r\<in>set (takeWhile ?P rs). fst r < c" by (auto dest: set_takeWhileD)
  have 4: "\<forall>r\<in>set (dropWhile ?P rs). c < fst r"
    using sorted_dropWhile_greater [OF s n] by blast
  have 5: "\<And>a b. a \<in> set (takeWhile ?P rs) \<Longrightarrow> b \<in> set (dropWhile ?P rs) \<Longrightarrow> fst a < fst b"
    using 3 4 by (meson less_trans)
  show ?thesis
    unfolding insert_at_find_pos using 1 2 3 4 5
    by (auto simp: sorted_wrt_append)
qed

lemma find_pos_member:
  fixes rs :: "(int \<times> byte) list"
  assumes s: "sorted_wrt (<) (map fst rs)"
  shows "c \<in> fst ` set rs \<longleftrightarrow> find_pos c rs < length rs \<and> fst (rs ! find_pos c rs) = c"
proof
  assume "find_pos c rs < length rs \<and> fst (rs ! find_pos c rs) = c"
  then show "c \<in> fst ` set rs" by (metis image_eqI nth_mem)
next
  assume "c \<in> fst ` set rs"
  then obtain j where j: "j < length rs" "fst (rs ! j) = c" by (metis imageE in_set_conv_nth)
  let ?p = "find_pos c rs"
  have pj: "?p \<le> j" using find_pos_less [of j c rs] j by (meson not_less less_irrefl)
  then have pl: "?p < length rs" using j by simp
  have "\<not> fst (rs ! ?p) < c" using find_pos_stop [OF pl] .
  moreover have "?p < j \<Longrightarrow> fst (rs ! ?p) < fst (rs ! j)"
    using s j(1) by (simp add: sorted_wrt_iff_nth_less)
  ultimately have "?p = j" using pj j(2) by (cases "?p < j") simp_all
  then show "find_pos c rs < length rs \<and> fst (rs ! find_pos c rs) = c" using j by simp
qed

lemma find_result_present:
  "sorted_wrt (<) (map fst rs) \<Longrightarrow> c \<in> fst ` set rs \<Longrightarrow> find_result c rs = Some (- 1)"
  using find_pos_member [of rs c] by (simp add: find_result_def)

lemma find_result_absent:
  "sorted_wrt (<) (map fst rs) \<Longrightarrow> c \<notin> fst ` set rs \<Longrightarrow> length rs < NUMBER_OF_CUBES \<Longrightarrow>
   find_result c rs = Some (int (find_pos c rs))"
  using find_pos_member [of rs c] find_pos_le [of c rs] by (auto simp: find_result_def Let_def)

subsection \<open>No more records than slots\<close>

lemma records_ok_length:
  assumes "records_ok rs"
  shows "length rs \<le> NUMBER_OF_CUBES"
proof -
  have "sorted_wrt (<) (map fst rs)" using assms by (simp add: records_ok_def)
  then have d: "distinct (map fst rs)" by (simp only: strict_sorted_iff)
  have "set (map fst rs) \<subseteq> {c. legal c}"
    using assms by (auto simp: records_ok_def reachable_legal)
  then have "card (set (map fst rs)) \<le> card {c. legal c}"
    using finite_legal by (intro card_mono) simp_all
  then show ?thesis using distinct_card [OF d] card_legal by simp
qed

lemma records_ok_cubes32: "records_ok rs \<Longrightarrow> cubes32 rs"
  by (auto simp: records_ok_def cubes32_def dest!: reachable_legal legal_range)

lemma records_ok_insert:
  assumes "records_ok rs" "c \<notin> fst ` set rs" "reachable c" "1 \<le> turn" "turn \<le> 6"
  shows "records_ok (insert_at (find_pos c rs) (c, turn) rs)"
  using assms sorted_insert [of rs c turn]
  by (auto simp: records_ok_def set_insert_at)
subsection \<open>The code refines the search\<close>

lemma discover_table_of:
  assumes "ftable s = table_of rs" "length rs \<le> NUMBER_OF_CUBES" "cubes32 rs" "0 \<le> c" "c < 4294967296"
  shows "discover s c turn =
     (case find_result c rs of
        None \<Rightarrow> None
      | Some r \<Rightarrow>
          if r = - 1 then Some s
          else Some \<lparr>fqueue = snd (enqueue (fqueue s) c),
                     ftable = table_of (take NUMBER_OF_CUBES (insert_at (find_pos c rs) (c, turn) rs)),
                     fcount = fcount s + 1\<rparr>)"
  using assms(1) add_state_table_of [OF assms(2-5), of turn]
  by (cases "find_result c rs") (auto simp: discover_def split_beta assms(1) [symmetric])

lemma body_inv_items_length:
  assumes "body_inv (items, rs, cnt)"
  shows "length items \<le> length rs"
proof -
  have "length items = card (set items)" using assms by (simp add: body_inv_def distinct_card)
  also have "\<dots> \<le> card (fst ` set rs)"
    using assms by (intro card_mono) (simp_all add: body_inv_def)
  also have "\<dots> \<le> card (set rs)" by (rule card_image_le) simp
  also have "\<dots> \<le> length rs" by (rule card_length)
  finally show ?thesis .
qed

lemma discover_refines:
  assumes r: "refines s (items, rs, cnt)" and b: "body_inv (items, rs, cnt)"
    and c: "reachable c" and t: "1 \<le> turn" "turn \<le> 6"
  shows "\<exists>s'. discover s c turn = Some s' \<and> refines s' (adiscover (items, rs, cnt) c turn) \<and>
    body_inv (adiscover (items, rs, cnt) c turn)"
proof -
  have ok: "records_ok rs" using b by (simp add: body_inv_def)
  have len: "length rs \<le> NUMBER_OF_CUBES" using ok by (rule records_ok_length)
  have c32: "cubes32 rs" using ok by (rule records_ok_cubes32)
  have cr: "0 \<le> c" "c < 4294967296" using legal_range [OF reachable_legal [OF c]] by simp_all
  have tb: "ftable s = table_of rs" using r by (simp add: refines_def)
  have so: "sorted_wrt (<) (map fst rs)" using ok by (simp add: records_ok_def)
  note d = discover_table_of [OF tb len c32 cr, of turn]
  show ?thesis
  proof (cases "c \<in> fst ` set rs")
    case True
    then have "discover s c turn = Some s" using d find_result_present [OF so True] by simp
    then show ?thesis using True r b by (simp add: adiscover_def)
  next
    case False
    let ?rs' = "insert_at (find_pos c rs) (c, turn) rs"
    have ok': "records_ok ?rs'" using records_ok_insert [OF ok False c t] .
    have "length ?rs' \<le> NUMBER_OF_CUBES" using ok' by (rule records_ok_length)
    then have l: "length rs < NUMBER_OF_CUBES" by simp
    then have tk: "take NUMBER_OF_CUBES ?rs' = ?rs'" by simp
    have fr: "find_result c rs = Some (int (find_pos c rs))"
      using find_result_absent [OF so False l] .
    have ds: "discover s c turn = Some \<lparr>fqueue = snd (enqueue (fqueue s) c),
        ftable = table_of ?rs', fcount = fcount s + 1\<rparr>"
      using d fr tk by simp
    have qo: "queue_ok (fqueue s)" and qi: "queue_items (fqueue s) = items"
      using r by (simp_all add: refines_def)
    have "length items \<le> length rs" using b by (rule body_inv_items_length)
    then have "nat (cells_used (fqueue s)) < NUMBER_OF_CUBES"
      using l qi length_queue_items [of "fqueue s"] by simp
    then have room: "cells_used (fqueue s) < int NUMBER_OF_CUBES" by linarith
    note e = enqueue_ok [OF qo room, of c]
    have r': "refines \<lparr>fqueue = snd (enqueue (fqueue s) c), ftable = table_of ?rs',
        fcount = fcount s + 1\<rparr> (items @ [c], ?rs', cnt + 1)"
      using e qi r by (simp add: refines_def)
    have ni: "c \<notin> set items" using b False by (auto simp: body_inv_def)
    have b': "body_inv (items @ [c], ?rs', cnt + 1)"
      using b ok' ni by (auto simp: body_inv_def set_insert_at)
    show ?thesis using ds r' b' False by (simp add: adiscover_def)
  qed
qed

lemma reachable_turns:
  assumes "reachable c"
  shows "\<exists>c'. frontC c = Some c' \<and> reachable c'" "\<exists>c'. frontCC c = Some c' \<and> reachable c'"
    "\<exists>c'. leftC c = Some c' \<and> reachable c'" "\<exists>c'. leftCC c = Some c' \<and> reachable c'"
    "\<exists>c'. topC c = Some c' \<and> reachable c'" "\<exists>c'. topCC c = Some c' \<and> reachable c'"
proof -
  have t: "\<And>turn. turn < 6 \<Longrightarrow> \<exists>c'. rotate_cube c turn = Some c' \<and> reachable c'"
    using rotate_total [OF _ reachable_in_space [OF assms]] reachable_turn [OF assms] by blast
  show "\<exists>c'. frontC c = Some c' \<and> reachable c'" "\<exists>c'. frontCC c = Some c' \<and> reachable c'"
    "\<exists>c'. leftC c = Some c' \<and> reachable c'" "\<exists>c'. leftCC c = Some c' \<and> reachable c'"
    "\<exists>c'. topC c = Some c' \<and> reachable c'" "\<exists>c'. topCC c = Some c' \<and> reachable c'"
    using t [of 1] t [of 0] t [of 3] t [of 2] t [of 5] t [of 4]
    by (simp_all add: frontC_def frontCC_def leftC_def leftCC_def topC_def topCC_def)
qed

lemma head_inv_reachable:
  assumes "head_inv (items, rs, cnt)" "c \<in> set items"
  shows "reachable c"
  using assms reachable_solved
  by (auto simp: head_inv_def body_inv_def records_ok_def)

lemma body_refines:
  assumes r: "refines s a" and h: "head_inv a"
  shows "(fill_body s = None \<and> abody a = None) \<or>
    (\<exists>s' a'. fill_body s = Some s' \<and> abody a = Some a' \<and> refines s' a' \<and> body_inv a')"
proof -
  obtain items rs cnt where a: "a = (items, rs, cnt)" by (cases a)
  have qo: "queue_ok (fqueue s)" and qi: "queue_items (fqueue s) = items"
    using r a by (simp_all add: refines_def)
  show ?thesis
  proof (cases items)
    case Nil
    then have "cells_used (fqueue s) = 0"
      using qi qo length_queue_items [of "fqueue s"] by (simp add: queue_ok_def)
    then have "dequeue (fqueue s) = (- 1, fqueue s)" using dequeue_empty [OF qo] by simp
    then have "fill_body s = None" by (simp add: fill_body_def frontC_def rotate_minus_one)
    then show ?thesis using a Nil by (simp add: abody_def)
  next
    case (Cons c rest)
    then have some: "0 < cells_used (fqueue s)"
      using qi length_queue_items [of "fqueue s"] by (cases "0 < cells_used (fqueue s)") simp_all
    note dq = dequeue_ok [OF qo some]
    define q' where "q' = snd (dequeue (fqueue s))"
    have d: "dequeue (fqueue s) = (c, q')" using dq qi Cons by (simp add: q'_def prod_eq_iff)
    have q': "queue_ok q'" "queue_items q' = rest" using dq qi Cons by (simp_all add: q'_def)
    have rc: "reachable c" using head_inv_reachable [of items rs cnt c] h a Cons by simp
    obtain c1 c2 c3 c4 c5 c6 where
      ts: "frontC c = Some c1" "frontCC c = Some c2" "leftC c = Some c3" "leftCC c = Some c4"
        "topC c = Some c5" "topCC c = Some c6"
      and rs': "reachable c1" "reachable c2" "reachable c3" "reachable c4" "reachable c5" "reachable c6"
      using reachable_turns [OF rc] by blast
    define s0 where "s0 = s\<lparr>fqueue := q'\<rparr>"
    have r0: "refines s0 (rest, rs, cnt)" using r a q' by (simp add: refines_def s0_def)
    have b0: "body_inv (rest, rs, cnt)"
      using h a Cons by (auto simp: head_inv_def body_inv_def records_ok_def)
    obtain s1 where 1: "discover s0 c1 1 = Some s1" "refines s1 (adiscover (rest, rs, cnt) c1 1)"
        "body_inv (adiscover (rest, rs, cnt) c1 1)"
      using discover_refines [OF r0 b0 rs'(1), of 1] by auto
    define a1 where "a1 = adiscover (rest, rs, cnt) c1 1"
    obtain i1 r1 n1 where a1: "a1 = (i1, r1, n1)" by (cases a1)
    obtain s2 where 2: "discover s1 c2 2 = Some s2" "refines s2 (adiscover a1 c2 2)"
        "body_inv (adiscover a1 c2 2)"
      using discover_refines [of s1 i1 r1 n1 c2 2] 1 rs'(2) a1 by (auto simp: a1_def)
    define a2 where "a2 = adiscover a1 c2 2"
    obtain i2 r2 n2 where a2: "a2 = (i2, r2, n2)" by (cases a2)
    obtain s3 where 3: "discover s2 c3 3 = Some s3" "refines s3 (adiscover a2 c3 3)"
        "body_inv (adiscover a2 c3 3)"
      using discover_refines [of s2 i2 r2 n2 c3 3] 2 rs'(3) a2 by (auto simp: a2_def)
    define a3 where "a3 = adiscover a2 c3 3"
    obtain i3 r3 n3 where a3: "a3 = (i3, r3, n3)" by (cases a3)
    obtain s4 where 4: "discover s3 c4 4 = Some s4" "refines s4 (adiscover a3 c4 4)"
        "body_inv (adiscover a3 c4 4)"
      using discover_refines [of s3 i3 r3 n3 c4 4] 3 rs'(4) a3 by (auto simp: a3_def)
    define a4 where "a4 = adiscover a3 c4 4"
    obtain i4 r4 n4 where a4: "a4 = (i4, r4, n4)" by (cases a4)
    obtain s5 where 5: "discover s4 c5 5 = Some s5" "refines s5 (adiscover a4 c5 5)"
        "body_inv (adiscover a4 c5 5)"
      using discover_refines [of s4 i4 r4 n4 c5 5] 4 rs'(5) a4 by (auto simp: a4_def)
    define a5 where "a5 = adiscover a4 c5 5"
    obtain i5 r5 n5 where a5: "a5 = (i5, r5, n5)" by (cases a5)
    obtain s6 where 6: "discover s5 c6 6 = Some s6" "refines s6 (adiscover a5 c6 6)"
        "body_inv (adiscover a5 c6 6)"
      using discover_refines [of s5 i5 r5 n5 c6 6] 5 rs'(6) a5 by (auto simp: a5_def)
    have fb: "fill_body s = Some s6"
      using d ts 1(1) 2(1) 3(1) 4(1) 5(1) 6(1) by (simp add: fill_body_def s0_def)
    have ab: "abody a = Some (adiscover a5 c6 6)"
      using a Cons ts by (simp add: abody_def a1_def a2_def a3_def a4_def a5_def)
    show ?thesis using fb ab 6 by blast
  qed
qed
lemma init_refines: "refines (fill_init make_state_table) ([SOLVED_CUBE], [], 0)"
proof -
  let ?q = "createQueue (int NUMBER_OF_CUBES)"
  have ok: "queue_ok ?q" using N_pos by (simp add: queue_ok_def createQueue_def)
  have room: "cells_used ?q < int NUMBER_OF_CUBES" using N_pos by (simp add: createQueue_def)
  have "queue_items ?q = []" by (simp add: queue_items_def createQueue_def)
  then show ?thesis
    using enqueue_ok [OF ok room, of SOLVED_CUBE]
    by (simp add: refines_def fill_init_def make_state_table_of)
qed

lemma init_head_inv: "head_inv ([SOLVED_CUBE], [], 0)"
  by (simp add: head_inv_def)

lemma body_inv_head_inv: "body_inv a \<Longrightarrow> head_inv a"
  by (simp add: head_inv_def)

lemma peek_refines:
  assumes r: "refines s (items, rs, cnt)" and h: "head_inv (items, rs, cnt)"
  shows "snd (peek (fqueue s)) = fqueue s \<and> fst (peek (fqueue s)) \<noteq> 0"
proof -
  have qo: "queue_ok (fqueue s)" and qi: "queue_items (fqueue s) = items"
    using r by (simp_all add: refines_def)
  have p: "peek (fqueue s) =
      (if cells_used (fqueue s) = 0 then - 1 else hd (queue_items (fqueue s)), fqueue s)"
    by (rule peek_ok [OF qo])
  show ?thesis
  proof (cases "cells_used (fqueue s) = 0")
    case True
    then show ?thesis using p by simp
  next
    case False
    then have "items \<noteq> []" using qi length_queue_items [of "fqueue s"] qo
      by (auto simp: queue_ok_def)
    then have "hd items \<in> set items" by simp
    then have "reachable (hd items)" using head_inv_reachable [OF h] by simp
    then have "hd items \<noteq> 0" using legal_nonzero [OF reachable_legal] by simp
    then show ?thesis using p False qi by simp
  qed
qed

text \<open>
  The run of the loop is the run of the search: undefined exactly when the search has
  met the empty frontier, and never out of the loop.
\<close>

lemma loop_refines:
  "refines s a \<Longrightarrow> head_inv a \<Longrightarrow>
   (fill_loop n s = Undefined \<and> aloop n a = None) \<or>
   (\<exists>s' a'. fill_loop n s = Running s' \<and> aloop n a = Some a' \<and> refines s' a' \<and> head_inv a')"
proof (induction n arbitrary: s a)
  case 0
  then show ?case by simp
next
  case (Suc n)
  obtain items rs cnt where a: "a = (items, rs, cnt)" by (cases a)
  have p: "snd (peek (fqueue s)) = fqueue s" "fst (peek (fqueue s)) \<noteq> 0"
    using peek_refines [of s items rs cnt] Suc.prems a by simp_all
  have fl: "fill_loop (Suc n) s =
      (case fill_body s of None \<Rightarrow> Undefined | Some s' \<Rightarrow> fill_loop n s')"
    using p by (simp add: split_beta)
  from body_refines [OF Suc.prems] show ?case
  proof
    assume "fill_body s = None \<and> abody a = None"
    then show ?thesis using fl by simp
  next
    assume "\<exists>s' a'. fill_body s = Some s' \<and> abody a = Some a' \<and> refines s' a' \<and> body_inv a'"
    then obtain s' a' where b: "fill_body s = Some s'" "abody a = Some a'" "refines s' a'" "body_inv a'"
      by blast
    show ?thesis
      using Suc.IH [OF b(3) body_inv_head_inv [OF b(4)]] fl b(1,2) by simp
  qed
qed

lemma build_refines:
  "(fill_state_table n make_state_table = Undefined \<and> aloop n ([SOLVED_CUBE], [], 0) = None) \<or>
   (\<exists>s a. fill_state_table n make_state_table = Running s \<and>
      aloop n ([SOLVED_CUBE], [], 0) = Some a \<and> refines s a \<and> head_inv a)"
  unfolding fill_state_table_def by (rule loop_refines [OF init_refines init_head_inv])

subsection \<open>What the search keeps, and where it ends\<close>

definition arecords :: "astate \<Rightarrow> (int \<times> byte) list" where
  "arecords a = fst (snd a)"

definition aitems :: "astate \<Rightarrow> int list" where
  "aitems a = fst a"

text \<open>The measure that every iteration lowers.\<close>

definition ameasure :: "astate \<Rightarrow> nat" where
  "ameasure a = 7 * (NUMBER_OF_CUBES - length (arecords a)) + length (aitems a)"

lemma adiscover_step:
  assumes b: "body_inv a" and c: "reachable c" and t: "1 \<le> turn" "turn \<le> 6"
  shows "body_inv (adiscover a c turn)"
    and "set (arecords a) \<subseteq> set (arecords (adiscover a c turn))"
    and "c \<in> fst ` set (arecords (adiscover a c turn))"
    and "set (aitems a) \<subseteq> set (aitems (adiscover a c turn))"
    and "fst ` set (arecords (adiscover a c turn)) - set (aitems (adiscover a c turn)) \<subseteq>
      fst ` set (arecords a) - set (aitems a)"
    and "ameasure (adiscover a c turn) \<le> ameasure a"
proof -
  obtain items rs cnt where a: "a = (items, rs, cnt)" by (cases a)
  have ok: "records_ok rs" using b a by (simp add: body_inv_def)
  have "body_inv (adiscover a c turn) \<and> set (arecords a) \<subseteq> set (arecords (adiscover a c turn)) \<and>
    c \<in> fst ` set (arecords (adiscover a c turn)) \<and>
    set (aitems a) \<subseteq> set (aitems (adiscover a c turn)) \<and>
    fst ` set (arecords (adiscover a c turn)) - set (aitems (adiscover a c turn)) \<subseteq>
      fst ` set (arecords a) - set (aitems a) \<and>
    ameasure (adiscover a c turn) \<le> ameasure a"
  proof (cases "c \<in> fst ` set rs")
    case True
    then show ?thesis using b a by (simp add: adiscover_def arecords_def aitems_def)
  next
    case False
    let ?rs' = "insert_at (find_pos c rs) (c, turn) rs"
    have ok': "records_ok ?rs'" using records_ok_insert [OF ok False c t] .
    have "length ?rs' \<le> NUMBER_OF_CUBES" using ok' by (rule records_ok_length)
    then have l: "length rs < NUMBER_OF_CUBES" by simp
    have ni: "c \<notin> set items" using b a False by (auto simp: body_inv_def)
    have b': "body_inv (items @ [c], ?rs', cnt + 1)"
      using b a ok' ni by (auto simp: body_inv_def set_insert_at)
    have m: "7 * (NUMBER_OF_CUBES - length ?rs') + length (items @ [c]) \<le>
        7 * (NUMBER_OF_CUBES - length rs) + length items"
      using l by simp
    show ?thesis
      using False a b' m
      by (auto simp: adiscover_def arecords_def aitems_def ameasure_def set_insert_at)
  qed
  then show "body_inv (adiscover a c turn)"
    and "set (arecords a) \<subseteq> set (arecords (adiscover a c turn))"
    and "c \<in> fst ` set (arecords (adiscover a c turn))"
    and "set (aitems a) \<subseteq> set (aitems (adiscover a c turn))"
    and "fst ` set (arecords (adiscover a c turn)) - set (aitems (adiscover a c turn)) \<subseteq>
      fst ` set (arecords a) - set (aitems a)"
    and "ameasure (adiscover a c turn) \<le> ameasure a"
    by simp_all
qed

lemma abody_step:
  assumes h: "head_inv a" and s: "abody a = Some a'"
  shows "body_inv a' \<and> set (arecords a) \<subseteq> set (arecords a') \<and> ameasure a' < ameasure a \<and>
    (\<exists>c rest. aitems a = c # rest \<and> set rest \<subseteq> set (aitems a') \<and>
       (\<forall>turn < 6. \<exists>c'. rotate_cube c turn = Some c' \<and> c' \<in> fst ` set (arecords a')) \<and>
       fst ` set (arecords a') - set (aitems a') \<subseteq> insert c (fst ` set (arecords a) - set (aitems a)))"
proof -
  obtain items rs cnt where a: "a = (items, rs, cnt)" by (cases a)
  obtain c rest where items: "items = c # rest"
    using s a by (cases items) (simp_all add: abody_def)
  have rc: "reachable c" using head_inv_reachable [of items rs cnt c] h a items by simp
  obtain c1 c2 c3 c4 c5 c6 where
    ts: "frontC c = Some c1" "frontCC c = Some c2" "leftC c = Some c3" "leftCC c = Some c4"
      "topC c = Some c5" "topCC c = Some c6"
    and rs': "reachable c1" "reachable c2" "reachable c3" "reachable c4" "reachable c5" "reachable c6"
    using reachable_turns [OF rc] by blast
  define a0 where "a0 = (rest, rs, cnt)"
  have b0: "body_inv a0"
    using h a items by (auto simp: a0_def head_inv_def body_inv_def records_ok_def)
  define a1 where "a1 = adiscover a0 c1 1"
  define a2 where "a2 = adiscover a1 c2 2"
  define a3 where "a3 = adiscover a2 c3 3"
  define a4 where "a4 = adiscover a3 c4 4"
  define a5 where "a5 = adiscover a4 c5 5"
  define a6 where "a6 = adiscover a5 c6 6"
  have w: "(1::byte) \<le> 1" "(1::byte) \<le> 6" "(1::byte) \<le> 2" "(2::byte) \<le> 6"
    "(1::byte) \<le> 3" "(3::byte) \<le> 6" "(1::byte) \<le> 4" "(4::byte) \<le> 6"
    "(1::byte) \<le> 5" "(5::byte) \<le> 6" "(6::byte) \<le> 6"
    by simp_all
  note 1 = adiscover_step [OF b0 rs'(1) w(1) w(2), folded a1_def]
  note 2 = adiscover_step [OF 1(1) rs'(2) w(3) w(4), folded a2_def]
  note 3 = adiscover_step [OF 2(1) rs'(3) w(5) w(6), folded a3_def]
  note 4 = adiscover_step [OF 3(1) rs'(4) w(7) w(8), folded a4_def]
  note 5 = adiscover_step [OF 4(1) rs'(5) w(9) w(10), folded a5_def]
  note 6 = adiscover_step [OF 5(1) rs'(6) w(2) w(11), folded a6_def]
  have a': "a' = a6"
    using s a items ts by (simp add: abody_def a0_def a1_def a2_def a3_def a4_def a5_def a6_def)
  have mono: "set (arecords a0) \<subseteq> set (arecords a6)"
    by (rule order_trans [OF 1(2)], rule order_trans [OF 2(2)], rule order_trans [OF 3(2)],
        rule order_trans [OF 4(2)], rule order_trans [OF 5(2)], rule 6(2))
  have imono: "set (aitems a0) \<subseteq> set (aitems a6)"
    by (rule order_trans [OF 1(4)], rule order_trans [OF 2(4)], rule order_trans [OF 3(4)],
        rule order_trans [OF 4(4)], rule order_trans [OF 5(4)], rule 6(4))
  have cs: "c1 \<in> fst ` set (arecords a6)" "c2 \<in> fst ` set (arecords a6)"
    "c3 \<in> fst ` set (arecords a6)" "c4 \<in> fst ` set (arecords a6)"
    "c5 \<in> fst ` set (arecords a6)" "c6 \<in> fst ` set (arecords a6)"
    using 1(3) 2(3) 3(3) 4(3) 5(3) 6(3) 2(2) 3(2) 4(2) 5(2) 6(2) by blast+
  have ex: "fst ` set (arecords a6) - set (aitems a6) \<subseteq> fst ` set (arecords a0) - set (aitems a0)"
    by (rule order_trans [OF 6(5)], rule order_trans [OF 5(5)], rule order_trans [OF 4(5)],
        rule order_trans [OF 3(5)], rule order_trans [OF 2(5)], rule 1(5))
  have me: "ameasure a6 \<le> ameasure a0" using 1(6) 2(6) 3(6) 4(6) 5(6) 6(6) by linarith
  have m0: "ameasure a0 < ameasure a"
    using a items by (simp add: a0_def ameasure_def arecords_def aitems_def)
  have nb: "\<forall>turn < 6. \<exists>c'. rotate_cube c turn = Some c' \<and> c' \<in> fst ` set (arecords a6)"
  proof (intro allI impI)
    fix turn :: nat assume "turn < 6"
    then have "turn = 0 \<or> turn = 1 \<or> turn = 2 \<or> turn = 3 \<or> turn = 4 \<or> turn = 5" by auto
    then show "\<exists>c'. rotate_cube c turn = Some c' \<and> c' \<in> fst ` set (arecords a6)"
      using ts cs
      by (auto simp: frontC_def frontCC_def leftC_def leftCC_def topC_def topCC_def)
  qed
  have ex': "fst ` set (arecords a6) - set (aitems a6) \<subseteq>
      insert c (fst ` set (arecords a) - set (aitems a))"
    using ex a items by (auto simp: a0_def arecords_def aitems_def)
  have r: "set (arecords a) \<subseteq> set (arecords a6)"
    using mono a by (simp add: a0_def arecords_def)
  have i: "aitems a = c # rest" "set rest \<subseteq> set (aitems a6)"
    using imono a items by (simp_all add: a0_def aitems_def)
  have m: "ameasure a6 < ameasure a" using me m0 by simp
  show ?thesis
    unfolding a' using 6(1) r i m nb ex' by blast
qed
lemma aloop_snoc:
  "aloop (Suc n) a = (case aloop n a of None \<Rightarrow> None | Some a' \<Rightarrow> abody a')"
proof (induction n arbitrary: a)
  case 0
  then show ?case by (simp split: option.split)
next
  case (Suc n)
  show ?case
  proof (cases "abody a")
    case None
    then show ?thesis by simp
  next
    case (Some a1)
    then show ?thesis using Suc.IH [of a1] by simp
  qed
qed

lemma aloop_add:
  "aloop (m + k) a = (case aloop m a of None \<Rightarrow> None | Some a' \<Rightarrow> aloop k a')"
proof (induction m arbitrary: a)
  case 0
  then show ?case by simp
next
  case (Suc m)
  then show ?case by (cases "abody a") simp_all
qed

lemma aloop_inv:
  "head_inv a \<Longrightarrow> aloop n a = Some a' \<Longrightarrow> head_inv a' \<and> set (arecords a) \<subseteq> set (arecords a')"
proof (induction n arbitrary: a)
  case 0
  then show ?case by simp
next
  case (Suc n)
  then obtain a1 where a1: "abody a = Some a1" "aloop n a1 = Some a'"
    by (cases "abody a") simp_all
  have s: "body_inv a1" "set (arecords a) \<subseteq> set (arecords a1)"
    using abody_step [OF Suc.prems(1) a1(1)] by simp_all
  show ?case using Suc.IH [OF body_inv_head_inv [OF s(1)] a1(2)] s(2) by blast
qed

lemma aloop_ends: "head_inv a \<Longrightarrow> ameasure a < n \<Longrightarrow> aloop n a = None"
proof (induction n arbitrary: a)
  case 0
  then show ?case by simp
next
  case (Suc n)
  show ?case
  proof (cases "abody a")
    case None
    then show ?thesis by simp
  next
    case (Some a1)
    have s: "body_inv a1" "ameasure a1 < ameasure a"
      using abody_step [OF Suc.prems(1) Some] by simp_all
    have "ameasure a1 < n" using s(2) Suc.prems(2) by simp
    then show ?thesis using Suc.IH [OF body_inv_head_inv [OF s(1)]] Some by simp
  qed
qed

lemma aloop_last:
  "aloop n a = None \<Longrightarrow> \<exists>m a'. m < n \<and> aloop m a = Some a' \<and> abody a' = None"
proof (induction n)
  case 0
  then show ?case by simp
next
  case (Suc n)
  show ?case
  proof (cases "aloop n a")
    case None
    then show ?thesis using Suc.IH by (meson less_Suc_eq)
  next
    case (Some a')
    then have "abody a' = None" using Suc.prems aloop_snoc [of n a] by (simp del: aloop.simps)
    then show ?thesis using Some by blast
  qed
qed

lemma abody_none:
  assumes "head_inv a" "abody a = None"
  shows "aitems a = []"
proof (rule ccontr)
  assume n: "aitems a \<noteq> []"
  obtain items rs cnt where a: "a = (items, rs, cnt)" by (cases a)
  obtain c rest where items: "items = c # rest" using n a by (cases items) (simp_all add: aitems_def)
  have rc: "reachable c" using head_inv_reachable [of items rs cnt c] assms(1) a items by simp
  obtain c1 c2 c3 c4 c5 c6 where
    "frontC c = Some c1" "frontCC c = Some c2" "leftC c = Some c3" "leftCC c = Some c4"
      "topC c = Some c5" "topCC c = Some c6"
    using reachable_turns [OF rc] by blast
  then show False using assms(2) a items by (simp add: abody_def)
qed

text \<open>Every cube that has been taken from the frontier has its six neighbours recorded.\<close>

definition closed_inv :: "astate \<Rightarrow> bool" where
  "closed_inv a =
     (\<forall>c \<in> insert SOLVED_CUBE (fst ` set (arecords a)) - set (aitems a).
        \<forall>turn < 6. \<exists>c'. rotate_cube c turn = Some c' \<and> c' \<in> fst ` set (arecords a))"

lemma closed_init: "closed_inv ([SOLVED_CUBE], [], 0)"
  by (simp add: closed_inv_def arecords_def aitems_def)

lemma abody_closed:
  assumes h: "head_inv a" and s: "abody a = Some a'" and k: "closed_inv a"
  shows "closed_inv a'"
  unfolding closed_inv_def
proof (intro ballI allI impI)
  fix x and turn :: nat
  assume x: "x \<in> insert SOLVED_CUBE (fst ` set (arecords a')) - set (aitems a')" and t: "turn < 6"
  from abody_step [OF h s] obtain c rest where
    mono: "set (arecords a) \<subseteq> set (arecords a')"
    and items: "aitems a = c # rest" "set rest \<subseteq> set (aitems a')"
    and nb: "\<forall>turn < 6. \<exists>c'. rotate_cube c turn = Some c' \<and> c' \<in> fst ` set (arecords a')"
    and ex: "fst ` set (arecords a') - set (aitems a') \<subseteq>
        insert c (fst ` set (arecords a) - set (aitems a))"
    by blast
  show "\<exists>c'. rotate_cube x turn = Some c' \<and> c' \<in> fst ` set (arecords a')"
  proof (cases "x = c")
    case True
    then show ?thesis using nb t by simp
  next
    case False
    have "x \<in> insert SOLVED_CUBE (fst ` set (arecords a)) - set (aitems a)"
    proof (cases "x = SOLVED_CUBE")
      case True
      then show ?thesis using x False items by auto
    next
      case F: False
      then have "x \<in> fst ` set (arecords a') - set (aitems a')" using x by simp
      then have "x \<in> insert c (fst ` set (arecords a) - set (aitems a))" using ex by blast
      then show ?thesis using False by simp
    qed
    then obtain c' where "rotate_cube x turn = Some c'" "c' \<in> fst ` set (arecords a)"
      using k t unfolding closed_inv_def by blast
    then show ?thesis using mono by auto
  qed
qed

lemma aloop_closed:
  "head_inv a \<Longrightarrow> closed_inv a \<Longrightarrow> aloop n a = Some a' \<Longrightarrow> closed_inv a'"
proof (induction n arbitrary: a)
  case 0
  then show ?case by simp
next
  case (Suc n)
  then obtain a1 where a1: "abody a = Some a1" "aloop n a1 = Some a'"
    by (cases "abody a") simp_all
  have "body_inv a1" using abody_step [OF Suc.prems(1) a1(1)] by simp
  then show ?case
    using Suc.IH [OF body_inv_head_inv abody_closed [OF Suc.prems(1) a1(1) Suc.prems(2)] a1(2)]
    by simp
qed

lemma exhausted_complete:
  assumes h: "head_inv a" and k: "closed_inv a" and e: "aitems a = []"
  shows "fst ` set (arecords a) = {c. reachable c}"
proof (intro equalityI subsetI)
  fix c assume c: "c \<in> fst ` set (arecords a)"
  have "body_inv a" using h e by (auto simp: head_inv_def aitems_def)
  then have "records_ok (arecords a)" by (cases a) (simp add: body_inv_def arecords_def)
  then show "c \<in> {c. reachable c}" using c by (auto simp: records_ok_def)
next
  have nb: "\<And>c turn. c \<in> insert SOLVED_CUBE (fst ` set (arecords a)) \<Longrightarrow> turn < 6 \<Longrightarrow>
      \<exists>c'. rotate_cube c turn = Some c' \<and> c' \<in> fst ` set (arecords a)"
    using k e unfolding closed_inv_def by auto
  obtain c1 where c1: "rotate_cube SOLVED_CUBE 1 = Some c1" "c1 \<in> fst ` set (arecords a)"
    using nb [of SOLVED_CUBE 1] by auto
  obtain c2 where c2: "rotate_cube c1 0 = Some c2" "c2 \<in> fst ` set (arecords a)"
    using nb [of c1 0] c1(2) by auto
  have "c2 = SOLVED_CUBE"
    using rotate_partner [OF solved_in_space, of 1] c1(1) c2(1) by (simp add: partner_simps)
  then have s: "SOLVED_CUBE \<in> fst ` set (arecords a)" using c2(2) by simp
  fix c assume "c \<in> {c. reachable c}"
  then have "reachable c" by simp
  then show "c \<in> fst ` set (arecords a)"
  proof (induction rule: reachable.induct)
    case reachable_solved
    then show ?case by (rule s)
  next
    case (reachable_turn c turn c')
    then show ?case using nb [of c turn] by auto
  qed
qed

section \<open>The build from the empty table\<close>

definition records_after_2 :: "(int \<times> byte) list" where
  "records_after_2 =
     [(665555689, 5), (665598332, 5), (1262417812, 6), (1262468452, 6), (1567151132, 4),
      (1567213906, 4), (1596969806, 3), (1597045409, 3), (1607582286, 1), (1607621429, 1),
      (1607654689, 2), (1607666046, 2)]"

definition frontier_after_2 :: "int list" where
  "frontier_after_2 =
     [1607654689, 1596969806, 1567213906, 665598332, 1262468452, 1607582286, 1607666046,
      1597045409, 1567151132, 665555689, 1262417812]"

text \<open>The table a run has reached, when it has one.\<close>

definition table_of_run :: "run \<Rightarrow> byte list option" where
  "table_of_run r =
     (case r of Returned s \<Rightarrow> Some (ftable s) | Undefined \<Rightarrow> None | Running s \<Rightarrow> Some (ftable s))"

lemma two_iterations:
  "aloop 2 ([SOLVED_CUBE], [], 0) = Some (frontier_after_2, records_after_2, 12)"
  unfolding SOLVED_CUBE_def frontier_after_2_def records_after_2_def by code_simp

lemma running_state:
  assumes "fill_state_table n make_state_table = Running s"
  shows "\<exists>a. aloop n ([SOLVED_CUBE], [], 0) = Some a \<and> refines s a \<and> head_inv a \<and> closed_inv a"
proof -
  obtain a where a: "aloop n ([SOLVED_CUBE], [], 0) = Some a" "refines s a" "head_inv a"
    using build_refines [of n] assms by auto
  have "closed_inv a" using aloop_closed [OF init_head_inv closed_init a(1)] .
  then show ?thesis using a by blast
qed

lemma never_returned: "fill_state_table n make_state_table \<noteq> Returned s"
  using build_refines [of n] by auto

lemma running_iff:
  "aloop n ([SOLVED_CUBE], [], 0) = Some a \<Longrightarrow>
   \<exists>s. fill_state_table n make_state_table = Running s \<and> refines s a"
  using build_refines [of n] by auto

lemma head_inv_records: "head_inv a \<Longrightarrow> records_ok (arecords a) \<and> snd (snd a) = int (length (arecords a))"
  by (cases a) (auto simp: head_inv_def body_inv_def records_ok_def arecords_def)

lemma refines_exhausted:
  assumes "refines s a" "cells_used (fqueue s) = 0"
  shows "aitems a = []"
proof -
  obtain items rs cnt where a: "a = (items, rs, cnt)" by (cases a)
  have "length (queue_items (fqueue s)) = 0" using assms(2) by simp
  then have "queue_items (fqueue s) = []" by (simp only: length_0_conv)
  then show ?thesis using assms(1) a by (simp add: refines_def aitems_def)
qed

lemma running_table:
  assumes "fill_state_table n make_state_table = Running s"
  shows "\<exists>rs. ftable s = table_of rs \<and> records_ok rs \<and> fcount s = int (length rs) \<and>
    (2 \<le> n \<longrightarrow> (SOLVED_CUBE, 2) \<in> set rs) \<and>
    (cells_used (fqueue s) = 0 \<longrightarrow> fst ` set rs = {c. reachable c})"
proof -
  obtain a where a: "aloop n ([SOLVED_CUBE], [], 0) = Some a" "refines s a" "head_inv a" "closed_inv a"
    using running_state [OF assms] by blast
  have t: "ftable s = table_of (arecords a)" "fcount s = snd (snd a)"
    using a(2) by (cases a; simp add: refines_def arecords_def)+
  have two: "2 \<le> n \<Longrightarrow> (SOLVED_CUBE, 2) \<in> set (arecords a)"
  proof -
    assume "2 \<le> n"
    then have e: "2 + (n - 2) = n" by simp
    have "aloop (2 + (n - 2)) ([SOLVED_CUBE], [], 0) =
        aloop (n - 2) (frontier_after_2, records_after_2, 12)"
      by (simp only: aloop_add two_iterations option.case)
    then have l: "aloop (n - 2) (frontier_after_2, records_after_2, 12) = Some a"
      using a(1) unfolding e by simp
    have h2: "head_inv (frontier_after_2, records_after_2, 12)"
      using aloop_inv [OF init_head_inv two_iterations] by simp
    have "set (arecords (frontier_after_2, records_after_2, 12)) \<subseteq> set (arecords a)"
      using aloop_inv [OF h2 l] by simp
    then show ?thesis by (auto simp: arecords_def records_after_2_def SOLVED_CUBE_def)
  qed
  have ex: "cells_used (fqueue s) = 0 \<Longrightarrow> fst ` set (arecords a) = {c. reachable c}"
    using exhausted_complete [OF a(3,4)] refines_exhausted [OF a(2)] by simp
  show ?thesis
    using t head_inv_records [OF a(3)] two ex by (intro exI [of _ "arecords a"]) simp
qed

lemma eventually_undefined:
  "fill_state_table (7 * NUMBER_OF_CUBES + 2) make_state_table = Undefined"
proof -
  have "ameasure ([SOLVED_CUBE], [], 0) < 7 * NUMBER_OF_CUBES + 2"
    by (simp add: ameasure_def arecords_def aitems_def)
  then have "aloop (7 * NUMBER_OF_CUBES + 2) ([SOLVED_CUBE], [], 0) = None"
    by (rule aloop_ends [OF init_head_inv])
  then show ?thesis using build_refines [of "7 * NUMBER_OF_CUBES + 2"] by auto
qed

lemma reaches_exhaustion:
  "\<exists>n s. fill_state_table n make_state_table = Running s \<and> cells_used (fqueue s) = 0"
proof -
  have "ameasure ([SOLVED_CUBE], [], 0) < 7 * NUMBER_OF_CUBES + 2"
    by (simp add: ameasure_def arecords_def aitems_def)
  then have "aloop (7 * NUMBER_OF_CUBES + 2) ([SOLVED_CUBE], [], 0) = None"
    by (rule aloop_ends [OF init_head_inv])
  then obtain m a where m: "aloop m ([SOLVED_CUBE], [], 0) = Some a" "abody a = None"
    using aloop_last by blast
  have h: "head_inv a" using aloop_inv [OF init_head_inv m(1)] by simp
  have e: "aitems a = []" using abody_none [OF h m(2)] .
  obtain s where s: "fill_state_table m make_state_table = Running s" "refines s a"
    using running_iff [OF m(1)] by blast
  have "queue_ok (fqueue s)" "queue_items (fqueue s) = []"
    using s(2) e by (cases a; simp add: refines_def aitems_def)+
  then have "cells_used (fqueue s) = 0"
    using length_queue_items [of "fqueue s"] by (simp add: queue_ok_def)
  then show ?thesis using s(1) by blast
qed

subsection \<open>Nothing leaves the frontier but by dequeue\<close>

text \<open>The length of the frontier less the number of records.\<close>

definition abalance :: "astate \<Rightarrow> int" where
  "abalance a = int (length (aitems a)) - int (length (arecords a))"

lemma adiscover_balance: "abalance (adiscover a c turn) = abalance a"
  by (cases a) (simp add: adiscover_def abalance_def aitems_def arecords_def)

lemma abody_balance:
  assumes "abody a = Some a'"
  shows "abalance a' = abalance a - 1"
proof -
  obtain items rs cnt where a: "a = (items, rs, cnt)" by (cases a)
  obtain c rest where i: "items = c # rest" using assms a by (cases items) (simp_all add: abody_def)
  obtain c1 c2 c3 c4 c5 c6 where
    "a' = adiscover (adiscover (adiscover (adiscover (adiscover (adiscover
               (rest, rs, cnt) c1 1) c2 2) c3 3) c4 4) c5 5) c6 6"
    using assms a i by (auto simp: abody_def bind_eq_Some_conv)
  then have "abalance a' = abalance (rest, rs, cnt)" by (simp only: adiscover_balance)
  then show ?thesis using a i by (simp add: abalance_def aitems_def arecords_def)
qed

lemma aloop_balance:
  "aloop n a = Some a' \<Longrightarrow> abalance a' = abalance a - int n"
proof (induction n arbitrary: a)
  case 0
  then show ?case by simp
next
  case (Suc n)
  then obtain a1 where a1: "abody a = Some a1" "aloop n a1 = Some a'"
    by (auto split: option.splits)
  show ?case using Suc.IH [OF a1(2)] abody_balance [OF a1(1)] by simp
qed

lemma running_balance:
  assumes "fill_state_table n make_state_table = Running s"
  shows "cells_used (fqueue s) = fcount s + 1 - int n"
proof -
  obtain a where a: "aloop n ([SOLVED_CUBE], [], 0) = Some a" "refines s a" "head_inv a"
    using running_state [OF assms] by blast
  have b: "abalance a = 1 - int n"
    using aloop_balance [OF a(1)] by (simp add: abalance_def aitems_def arecords_def)
  have q: "queue_ok (fqueue s)" "queue_items (fqueue s) = aitems a" "fcount s = snd (snd a)"
    using a(2) by (cases a; simp add: refines_def aitems_def)+
  have "int (length (aitems a)) = cells_used (fqueue s)"
    using q(1) unfolding q(2) [symmetric] by (simp add: queue_ok_def)
  moreover have "fcount s = int (length (arecords a))" using head_inv_records [OF a(3)] q(3) by simp
  ultimately show ?thesis using b by (simp add: abalance_def)
qed

lemma records_all_reachable:
  assumes ok: "records_ok rs" and all: "fst ` set rs = {c. reachable c}"
  shows "length rs = NUMBER_OF_CUBES"
proof -
  have "sorted_wrt (<) (map fst rs)" using ok by (simp add: records_ok_def)
  then have "distinct (map fst rs)" by (simp only: strict_sorted_iff)
  then have "card (set (map fst rs)) = length rs" using distinct_card by fastforce
  then show ?thesis using all card_reachable by simp
qed

lemma exhausted_run:
  assumes run: "fill_state_table n make_state_table = Running s" and e: "cells_used (fqueue s) = 0"
  shows "fcount s = int NUMBER_OF_CUBES" "n = NUMBER_OF_CUBES + 1"
proof -
  obtain rs where rs: "ftable s = table_of rs" "records_ok rs" "fcount s = int (length rs)"
    "cells_used (fqueue s) = 0 \<longrightarrow> fst ` set rs = {c. reachable c}"
    using running_table [OF run] by blast
  have "length rs = NUMBER_OF_CUBES" using records_all_reachable [OF rs(2)] rs(4) e by simp
  then show "fcount s = int NUMBER_OF_CUBES" using rs(3) by simp
  then show "n = NUMBER_OF_CUBES + 1" using running_balance [OF run] e by simp
qed

lemma exhaustion_at:
  "\<exists>s. fill_state_table (NUMBER_OF_CUBES + 1) make_state_table = Running s \<and>
     cells_used (fqueue s) = 0 \<and> fcount s = int NUMBER_OF_CUBES"
proof -
  obtain n s where s: "fill_state_table n make_state_table = Running s" "cells_used (fqueue s) = 0"
    using reaches_exhaustion by blast
  show ?thesis using exhausted_run [OF s] s by auto
qed

subsection \<open>The slots of a built table\<close>

lemma byte_1_6:
  "1 \<le> (w::byte) \<Longrightarrow> w \<le> 6 \<Longrightarrow> w = 1 \<or> w = 2 \<or> w = 3 \<or> w = 4 \<or> w = 5 \<or> w = 6"
  by unat_arith

lemma byte_1_6_neq: "1 \<le> (w::byte) \<Longrightarrow> w \<le> 6 \<Longrightarrow> w \<noteq> - 1 \<and> w \<noteq> 0"
proof -
  assume "1 \<le> w" "w \<le> 6"
  then have "w = 1 \<or> w = 2 \<or> w = 3 \<or> w = 4 \<or> w = 5 \<or> w = 6" by (rule byte_1_6)
  moreover have "(- 1 :: byte) = 255" by simp
  ultimately show ?thesis by auto
qed

lemma records_ok_slot:
  assumes ok: "records_ok rs" and i: "i < length rs"
  shows "cube_at (table_of rs) i = fst (rs ! i)" "table_of rs ! (i * 5 + 4) = snd (rs ! i)"
    "reachable (fst (rs ! i))" "1 \<le> snd (rs ! i)" "snd (rs ! i) \<le> 6"
proof -
  have len: "length rs \<le> NUMBER_OF_CUBES" using ok by (rule records_ok_length)
  have r: "reachable (fst (rs ! i))" "1 \<le> snd (rs ! i)" "snd (rs ! i) \<le> 6"
    using ok i by (simp_all add: records_ok_def)
  have "0 < fst (rs ! i) \<and> fst (rs ! i) < 4294967296"
    using legal_range [OF reachable_legal [OF r(1)]] .
  moreover have "fst (rs ! i) < 21 ^ 7"
    using reachable_in_space [OF r(1)] by (simp add: config_space_def)
  ultimately have b: "- (2 ^ 31) \<le> fst (rs ! i) \<and> fst (rs ! i) < 2 ^ 31" by simp
  have iN: "i < NUMBER_OF_CUBES" using i len by simp
  show "cube_at (table_of rs) i = fst (rs ! i)"
    using cube_at_table_of [OF len iN] b i by simp
  show "table_of rs ! (i * 5 + 4) = snd (rs ! i)" by (rule table_of_slot_bytes(5) [OF len i])
  show "reachable (fst (rs ! i))" "1 \<le> snd (rs ! i)" "snd (rs ! i) \<le> 6" by (rule r)+
qed

lemma records_ok_empty_slot:
  assumes ok: "records_ok rs" and i: "length rs \<le> i" "i < NUMBER_OF_CUBES"
  shows "cube_at (table_of rs) i = 0"
  using cube_at_table_of [OF records_ok_length [OF ok] i(2)] i(1) by simp

lemma get_turn_loop_cases:
  "0 \<le> lo \<Longrightarrow> hi < int NUMBER_OF_CUBES \<Longrightarrow> lo \<le> hi \<Longrightarrow>
   get_turn_loop t c lo hi = - 1 \<or>
   (\<exists>m < NUMBER_OF_CUBES. cube_at t m = c \<and> get_turn_loop t c lo hi = t ! (m * 5 + 4))"
proof (induction t c lo hi rule: get_turn_loop.induct)
  case (1 t c lo hi)
  define middle where "middle = lo + ((hi - lo) sdiv 2)"
  have mb: "lo \<le> middle" "middle \<le> hi" using middle_bounds [OF "1.prems"(3)] by (simp_all add: middle_def)
  have mN: "nat middle < NUMBER_OF_CUBES" using mb "1.prems" by simp
  show ?case
  proof (cases "cube_at t (nat middle) < c")
    case True
    show ?thesis
    proof (cases "hi \<ge> middle + 1")
      case g: True
      have "get_turn_loop t c lo hi = get_turn_loop t c (middle + 1) hi"
        using True g by (subst get_turn_loop.simps) (simp add: middle_def Let_def)
      then show ?thesis
        using "1.IH"(1) [OF middle_def refl True g] mb "1.prems" g by simp
    next
      case False
      then show ?thesis using True by (subst get_turn_loop.simps) (simp add: middle_def Let_def)
    qed
  next
    case False
    show ?thesis
    proof (cases "cube_at t (nat middle) > c")
      case gt: True
      show ?thesis
      proof (cases "middle - 1 \<ge> lo")
        case g: True
        have "get_turn_loop t c lo hi = get_turn_loop t c lo (middle - 1)"
          using False gt g by (subst get_turn_loop.simps) (simp add: middle_def Let_def)
        then show ?thesis
          using "1.IH"(2) [OF middle_def refl False gt g] mb "1.prems" g by simp
      next
        case F2: False
        then show ?thesis using False gt by (subst get_turn_loop.simps) (simp add: middle_def Let_def)
      qed
    next
      case F3: False
      then have e: "cube_at t (nat middle) = c" using False by simp
      have "get_turn_loop t c lo hi = t ! (nat middle * 5 + 4)"
        using False F3 by (subst get_turn_loop.simps) (simp add: middle_def [symmetric] Let_def)
      then show ?thesis using e mN by blast
    qed
  qed
qed

lemma get_turn_built:
  assumes ok: "records_ok rs" and c: "reachable c"
  shows "get_turn (table_of rs) c = - 1 \<or>
    (1 \<le> get_turn (table_of rs) c \<and> get_turn (table_of rs) c \<le> 6)"
proof -
  have "get_turn (table_of rs) c = - 1 \<or>
      (\<exists>m < NUMBER_OF_CUBES. cube_at (table_of rs) m = c \<and>
         get_turn (table_of rs) c = table_of rs ! (m * 5 + 4))"
    unfolding get_turn_def by (rule get_turn_loop_cases) (simp_all add: NUMBER_OF_CUBES_def)
  then show ?thesis
  proof
    assume "get_turn (table_of rs) c = - 1"
    then show ?thesis by simp
  next
    assume "\<exists>m < NUMBER_OF_CUBES. cube_at (table_of rs) m = c \<and>
         get_turn (table_of rs) c = table_of rs ! (m * 5 + 4)"
    then obtain m where m: "m < NUMBER_OF_CUBES" "cube_at (table_of rs) m = c"
      "get_turn (table_of rs) c = table_of rs ! (m * 5 + 4)" by blast
    have "c \<noteq> 0" using legal_nonzero [OF reachable_legal [OF c]] .
    then have "m < length rs" using records_ok_empty_slot [OF ok _ m(1)] m(2) by (cases "m < length rs") simp_all
    then show ?thesis using records_ok_slot(2,4,5) [OF ok] m(3) by simp
  qed
qed

lemma perform_turn_reachable:
  assumes "reachable c" "1 \<le> w" "w \<le> 6"
  shows "\<exists>c'. perform_turn w c = Some c' \<and> reachable c'"
  using byte_1_6 [OF assms(2,3)] reachable_turns [OF assms(1)]
  by (auto simp: perform_turn_def)

lemma solve_loop_built:
  assumes ok: "records_ok rs"
  shows "reachable c \<Longrightarrow>
    solve_loop (table_of rs) c buf count = Some Null \<or> solve_loop (table_of rs) c buf count = None"
proof (induction "length buf - count" arbitrary: c buf count)
  case 0
  from get_turn_built [OF ok "0.prems"] show ?case
  proof
    assume "get_turn (table_of rs) c = - 1"
    then show ?thesis by (simp add: solve_loop_not_found)
  next
    assume "1 \<le> get_turn (table_of rs) c \<and> get_turn (table_of rs) c \<le> 6"
    then have "get_turn (table_of rs) c \<noteq> - 1" using byte_1_6_neq by blast
    then show ?thesis using 0(1) by (subst (1 2) solve_loop.simps) simp
  qed
next
  case (Suc n)
  from get_turn_built [OF ok Suc.prems] show ?case
  proof
    assume "get_turn (table_of rs) c = - 1"
    then show ?thesis by (simp add: solve_loop_not_found)
  next
    assume g: "1 \<le> get_turn (table_of rs) c \<and> get_turn (table_of rs) c \<le> 6"
    then have n1: "get_turn (table_of rs) c \<noteq> - 1" and n0: "get_turn (table_of rs) c \<noteq> 0"
      using byte_1_6_neq by blast+
    obtain c' where c': "perform_turn (get_turn (table_of rs) c) c = Some c'" "reachable c'"
      using perform_turn_reachable [OF Suc.prems] g by blast
    have lt: "count < length buf" using Suc(2) by simp
    have "solve_loop (table_of rs) c buf count =
        solve_loop (table_of rs) c' (buf[count := get_turn (table_of rs) c]) (count + 1)"
      using n1 n0 lt c'(1) by (subst solve_loop.simps) simp
    moreover have "n = length (buf[count := get_turn (table_of rs) c]) - (count + 1)"
      using Suc(2) by simp
    ultimately show ?thesis using Suc(1) [OF _ c'(2)] by simp
  qed
qed

section \<open>The table of the build\<close>

lemma two_iterations_run:
  "\<exists>s. fill_state_table 2 make_state_table = Running s \<and> ftable s = table_of records_after_2 \<and>
     queue_items (fqueue s) = frontier_after_2 \<and> fcount s = 12"
  using running_iff [OF two_iterations] by (auto simp: refines_def)

lemma two_iterations_table:
  "table_of_run (fill_state_table 2 make_state_table) = Some (table_of records_after_2)"
  using two_iterations_run by (auto simp: table_of_run_def)

lemma records_after_2_ok: "records_ok records_after_2"
  using head_inv_records [OF aloop_inv [OF init_head_inv two_iterations, THEN conjunct1]]
  by (simp add: arecords_def)

lemma solved_slot_after_2:
  "cube_at (table_of records_after_2) 11 = SOLVED_CUBE" "table_of records_after_2 ! (11 * 5 + 4) = 2"
  using records_ok_slot(1,2) [OF records_after_2_ok, of 11]
  by (simp_all add: records_after_2_def SOLVED_CUBE_def)

lemma built_length:
  "records_ok rs \<Longrightarrow> length (table_of rs) = 18370800"
  using length_table_of [OF records_ok_length] by (simp add: NUMBER_OF_CUBES_def)

text \<open>What a run has in its count and in its queue, and the filled slots of a table.\<close>

definition count_of_run :: "run \<Rightarrow> int option" where
  "count_of_run r =
     (case r of Returned s \<Rightarrow> Some (fcount s) | Undefined \<Rightarrow> None | Running s \<Rightarrow> Some (fcount s))"

definition cells_of_run :: "run \<Rightarrow> int option" where
  "cells_of_run r =
     (case r of Returned s \<Rightarrow> Some (cells_used (fqueue s)) | Undefined \<Rightarrow> None
      | Running s \<Rightarrow> Some (cells_used (fqueue s)))"

definition filled_slots :: "byte list \<Rightarrow> nat" where
  "filled_slots t = length (filter (\<lambda>i. cube_at t i \<noteq> 0) [0 ..< NUMBER_OF_CUBES])"

lemma filter_less_upt: "k \<le> n \<Longrightarrow> filter (\<lambda>i. i < k) [0 ..< n] = [0 ..< k]"
proof (induction n)
  case 0
  then show ?case by simp
next
  case (Suc n)
  show ?case
  proof (cases "k = Suc n")
    case True
    have "filter (\<lambda>i. i < Suc n) [0 ..< Suc n] = [0 ..< Suc n]"
      by (rule filter_True) simp
    then show ?thesis using True by simp
  next
    case False
    then have "k \<le> n" using Suc.prems by simp
    then show ?thesis using Suc.IH by simp
  qed
qed

lemma filled_slots_records:
  assumes ok: "records_ok rs"
  shows "filled_slots (table_of rs) = length rs"
proof -
  have len: "length rs \<le> NUMBER_OF_CUBES" using ok by (rule records_ok_length)
  have "\<And>i. i \<in> set [0 ..< NUMBER_OF_CUBES] \<Longrightarrow> (cube_at (table_of rs) i \<noteq> 0) = (i < length rs)"
  proof -
    fix i assume "i \<in> set [0 ..< NUMBER_OF_CUBES]"
    then have i: "i < NUMBER_OF_CUBES" by simp
    show "(cube_at (table_of rs) i \<noteq> 0) = (i < length rs)"
    proof (cases "i < length rs")
      case True
      have "fst (rs ! i) \<noteq> 0"
        using legal_nonzero [OF reachable_legal [OF records_ok_slot(3) [OF ok True]]] .
      then show ?thesis using records_ok_slot(1) [OF ok True] True by simp
    next
      case False
      then show ?thesis using records_ok_empty_slot [OF ok _ i] by simp
    qed
  qed
  then have "filter (\<lambda>i. cube_at (table_of rs) i \<noteq> 0) [0 ..< NUMBER_OF_CUBES] =
      filter (\<lambda>i. i < length rs) [0 ..< NUMBER_OF_CUBES]"
    by (intro filter_cong refl)
  then show ?thesis using len by (simp add: filled_slots_def filter_less_upt)
qed

lemma after_exhaustion:
  "fill_state_table (Suc (NUMBER_OF_CUBES + 1)) make_state_table = Undefined"
proof -
  obtain s where s: "fill_state_table (NUMBER_OF_CUBES + 1) make_state_table = Running s"
    "cells_used (fqueue s) = 0"
    using exhaustion_at by blast
  obtain a where a: "aloop (NUMBER_OF_CUBES + 1) ([SOLVED_CUBE], [], 0) = Some a" "refines s a"
    using running_state [OF s(1)] by blast
  have "aitems a = []" using refines_exhausted [OF a(2) s(2)] .
  then have "abody a = None" by (cases a) (simp add: abody_def aitems_def)
  then have "aloop (Suc (NUMBER_OF_CUBES + 1)) ([SOLVED_CUBE], [], 0) = None"
    by (simp only: aloop_snoc a(1) option.case)
  then show ?thesis using build_refines [of "Suc (NUMBER_OF_CUBES + 1)"] by auto
qed

lemma get_turn_full_records:
  assumes ok: "records_ok rs" and full: "length rs = NUMBER_OF_CUBES" and i: "i < length rs"
  shows "get_turn (table_of rs) (fst (rs ! i)) = snd (rs ! i)"
proof -
  have so: "sorted_wrt (<) (map fst rs)" using ok by (simp add: records_ok_def)
  have s: "sorted_slots (table_of rs) NUMBER_OF_CUBES"
    unfolding sorted_slots_def
  proof (intro allI impI)
    fix a b assume "a < b \<and> b < NUMBER_OF_CUBES"
    then have ab: "a < b" "b < length rs" "a < length rs" using full by simp_all
    have "fst (rs ! a) < fst (rs ! b)" using so ab by (simp add: sorted_wrt_iff_nth_less)
    then show "cube_at (table_of rs) a < cube_at (table_of rs) b"
      using records_ok_slot(1) [OF ok] ab by simp
  qed
  have p: "int NUMBER_OF_CUBES - 1 \<in> set (right_path 0 (int NUMBER_OF_CUBES - 1))"
    unfolding right_path_table by (simp add: NUMBER_OF_CUBES_def)
  have "get_turn (table_of rs) (fst (rs ! i)) = table_of rs ! (i * 5 + 4)"
    unfolding get_turn_def using i full records_ok_slot(1) [OF ok i] p
    by (intro get_turn_loop_right [OF s]) (simp_all add: NUMBER_OF_CUBES_def)
  then show ?thesis using records_ok_slot(2) [OF ok i] by simp
qed

text \<open>
  C2, as the code has it. \<open>fill_state_table\<close> does not return (C5), so the table is
  taken at every stage of the build: its filled records are in strictly ascending order
  of the cube with no cube twice, every one is a reachable cube, and there are as many
  as \<open>count\<close> says. From the second iteration on the solved cube is one of them. The
  frontier is exhausted after \<open>NUMBER_OF_CUBES + 1\<close> iterations, and there the table
  holds exactly \<open>NUMBER_OF_CUBES\<close> = 3,674,160 records, one for every reachable cube,
  the solved cube included.
\<close>

theorem complete_table_records:
  assumes "fill_state_table n make_state_table = Running s"
  shows "\<exists>rs. ftable s = table_of rs \<and> filled_slots (ftable s) = length rs \<and>
    length rs \<le> NUMBER_OF_CUBES \<and> fcount s = int (length rs) \<and>
    sorted_wrt (<) (map fst rs) \<and> distinct (map fst rs) \<and> fst ` set rs \<subseteq> {c. reachable c} \<and>
    (2 \<le> n \<longrightarrow> SOLVED_CUBE \<in> fst ` set rs) \<and>
    (cells_used (fqueue s) = 0 \<longrightarrow>
       n = NUMBER_OF_CUBES + 1 \<and> length rs = 3674160 \<and> fst ` set rs = {c. reachable c} \<and>
       card {c. reachable c} = 3674160)"
proof -
  obtain rs where rs: "ftable s = table_of rs" "records_ok rs" "fcount s = int (length rs)"
    "2 \<le> n \<longrightarrow> (SOLVED_CUBE, 2) \<in> set rs"
    "cells_used (fqueue s) = 0 \<longrightarrow> fst ` set rs = {c. reachable c}"
    using running_table [OF assms] by blast
  have so: "sorted_wrt (<) (map fst rs)" using rs(2) by (simp add: records_ok_def)
  then have d: "distinct (map fst rs)" by (simp only: strict_sorted_iff)
  have r: "fst ` set rs \<subseteq> {c. reachable c}" using rs(2) by (auto simp: records_ok_def)
  have two: "2 \<le> n \<longrightarrow> SOLVED_CUBE \<in> fst ` set rs" using rs(4) by force
  have f: "filled_slots (ftable s) = length rs" unfolding rs(1) by (rule filled_slots_records [OF rs(2)])
  have e: "cells_used (fqueue s) = 0 \<longrightarrow>
       n = NUMBER_OF_CUBES + 1 \<and> length rs = 3674160 \<and> fst ` set rs = {c. reachable c} \<and>
       card {c. reachable c} = 3674160"
  proof
    assume z: "cells_used (fqueue s) = 0"
    have "length rs = NUMBER_OF_CUBES" using records_all_reachable [OF rs(2)] rs(5) z by simp
    then show "n = NUMBER_OF_CUBES + 1 \<and> length rs = 3674160 \<and> fst ` set rs = {c. reachable c} \<and>
       card {c. reachable c} = 3674160"
      using exhausted_run(2) [OF assms z] rs(5) z card_reachable by (simp add: NUMBER_OF_CUBES_def)
  qed
  show ?thesis
    using rs(1,3) f records_ok_length [OF rs(2)] so d r two e by blast
qed

theorem complete_table_records_witness:
  "(\<exists>s. fill_state_table 2 make_state_table = Running s \<and>
      (\<exists>rs. ftable s = table_of rs \<and> filled_slots (ftable s) = length rs \<and>
         fcount s = int (length rs) \<and> sorted_wrt (<) (map fst rs) \<and> distinct (map fst rs) \<and>
         fst ` set rs \<subseteq> {c. reachable c} \<and> SOLVED_CUBE \<in> fst ` set rs)) \<and>
   (\<exists>s. fill_state_table (NUMBER_OF_CUBES + 1) make_state_table = Running s \<and>
      cells_used (fqueue s) = 0 \<and>
      (\<exists>rs. ftable s = table_of rs \<and> sorted_wrt (<) (map fst rs) \<and> length rs = 3674160 \<and>
         fst ` set rs = {c. reachable c}))"
proof (rule conjI)
  obtain s where s: "fill_state_table 2 make_state_table = Running s"
    using two_iterations_run by blast
  show "\<exists>s. fill_state_table 2 make_state_table = Running s \<and>
      (\<exists>rs. ftable s = table_of rs \<and> filled_slots (ftable s) = length rs \<and>
         fcount s = int (length rs) \<and> sorted_wrt (<) (map fst rs) \<and> distinct (map fst rs) \<and>
         fst ` set rs \<subseteq> {c. reachable c} \<and> SOLVED_CUBE \<in> fst ` set rs)"
    using complete_table_records [OF s] s by auto
next
  obtain s where s: "fill_state_table (NUMBER_OF_CUBES + 1) make_state_table = Running s"
    "cells_used (fqueue s) = 0"
    using exhaustion_at by blast
  show "\<exists>s. fill_state_table (NUMBER_OF_CUBES + 1) make_state_table = Running s \<and>
      cells_used (fqueue s) = 0 \<and>
      (\<exists>rs. ftable s = table_of rs \<and> sorted_wrt (<) (map fst rs) \<and> length rs = 3674160 \<and>
         fst ` set rs = {c. reachable c})"
    using complete_table_records [OF s(1)] s by blast
qed

text \<open>
  After 3,674,161 iterations the queue is exhausted, the count is 3,674,160 and 3,674,160
  slots of the table are filled, not 3,674,159; the next iteration is undefined. After two
  iterations the solved cube is among the twelve records.
\<close>

theorem complete_table_records_counterexample:
  "cells_of_run (fill_state_table 3674161 make_state_table) = Some 0 \<and>
   count_of_run (fill_state_table 3674161 make_state_table) = Some 3674160 \<and>
   map_option filled_slots (table_of_run (fill_state_table 3674161 make_state_table)) = Some 3674160 \<and>
   fill_state_table 3674162 make_state_table = Undefined \<and>
   table_of_run (fill_state_table 2 make_state_table) = Some (table_of records_after_2) \<and>
   SOLVED_CUBE \<in> fst ` set records_after_2"
proof -
  have n: "NUMBER_OF_CUBES + 1 = 3674161" by (simp add: NUMBER_OF_CUBES_def)
  have n': "Suc (NUMBER_OF_CUBES + 1) = 3674162" by (simp add: NUMBER_OF_CUBES_def)
  obtain s where s: "fill_state_table 3674161 make_state_table = Running s"
    "cells_used (fqueue s) = 0" "fcount s = int NUMBER_OF_CUBES"
    using exhaustion_at unfolding n by blast
  obtain rs where rs: "ftable s = table_of rs" "records_ok rs" "fcount s = int (length rs)"
    using running_table [OF s(1)] by blast
  have f: "filled_slots (ftable s) = 3674160"
    using filled_slots_records [OF rs(2)] rs(1,3) s(3) by (simp add: NUMBER_OF_CUBES_def)
  have u: "fill_state_table 3674162 make_state_table = Undefined"
    using after_exhaustion by (simp only: n')
  show ?thesis
    using s f u two_iterations_table
    by (simp add: cells_of_run_def count_of_run_def table_of_run_def NUMBER_OF_CUBES_def
        records_after_2_def SOLVED_CUBE_def)
qed

text \<open>
  C3. The solved cube is enqueued as the seed with no record in the table. The second
  iteration of the loop finds it again, as \<open>frontCC\<close> of the first cube discovered:
  \<open>add_state\<close> inserts it with the turn 2 and it is enqueued a second time. From then on
  the table holds the record of the solved cube with the turn 2, and on the table of the
  exhausted frontier \<open>get_turn\<close> returns 2 for the solved cube, not \<open>-1\<close>.
\<close>

theorem solved_cube_rediscovered:
  "queue_items (fqueue (fill_init make_state_table)) = [SOLVED_CUBE] \<and>
   ftable (fill_init make_state_table) = make_state_table \<and>
   (fill_state_table 2 make_state_table = Running s \<longrightarrow>
      SOLVED_CUBE \<in> set (queue_items (fqueue s))) \<and>
   (fill_state_table n make_state_table = Running s \<and> 2 \<le> n \<longrightarrow>
      (\<exists>i < NUMBER_OF_CUBES. cube_at (ftable s) i = SOLVED_CUBE \<and> ftable s ! (i * 5 + 4) = 2)) \<and>
   (fill_state_table n make_state_table = Running s \<and> cells_used (fqueue s) = 0 \<longrightarrow>
      get_turn (ftable s) SOLVED_CUBE = 2)"
proof (intro conjI impI)
  show "queue_items (fqueue (fill_init make_state_table)) = [SOLVED_CUBE]"
    using init_refines by (simp add: refines_def)
  show "ftable (fill_init make_state_table) = make_state_table" by (simp add: fill_init_def)
next
  assume "fill_state_table 2 make_state_table = Running s"
  then have "queue_items (fqueue s) = frontier_after_2" using two_iterations_run by auto
  then show "SOLVED_CUBE \<in> set (queue_items (fqueue s))"
    by (simp add: frontier_after_2_def SOLVED_CUBE_def)
next
  assume a: "fill_state_table n make_state_table = Running s \<and> 2 \<le> n"
  then obtain rs where rs: "ftable s = table_of rs" "records_ok rs" "(SOLVED_CUBE, 2) \<in> set rs"
    using running_table [of n s] by blast
  then obtain i where i: "i < length rs" "rs ! i = (SOLVED_CUBE, 2)" by (auto simp: in_set_conv_nth)
  have "cube_at (table_of rs) i = SOLVED_CUBE" "table_of rs ! (i * 5 + 4) = 2"
    using records_ok_slot(1,2) [OF rs(2) i(1)] i(2) by simp_all
  moreover have "i < NUMBER_OF_CUBES" using i(1) records_ok_length [OF rs(2)] by simp
  ultimately show "\<exists>i < NUMBER_OF_CUBES. cube_at (ftable s) i = SOLVED_CUBE \<and> ftable s ! (i * 5 + 4) = 2"
    using rs(1) by auto
next
  assume a: "fill_state_table n make_state_table = Running s \<and> cells_used (fqueue s) = 0"
  then have n: "n = NUMBER_OF_CUBES + 1" using exhausted_run(2) [of n s] by simp
  obtain rs where rs: "ftable s = table_of rs" "records_ok rs"
    "2 \<le> n \<longrightarrow> (SOLVED_CUBE, 2) \<in> set rs" "cells_used (fqueue s) = 0 \<longrightarrow> fst ` set rs = {c. reachable c}"
    using running_table [of n s] a by blast
  have full: "length rs = NUMBER_OF_CUBES" using records_all_reachable [OF rs(2)] rs(4) a by simp
  have "(SOLVED_CUBE, 2) \<in> set rs" using rs(3) n by (simp add: NUMBER_OF_CUBES_def)
  then obtain i where i: "i < length rs" "rs ! i = (SOLVED_CUBE, 2)" by (auto simp: in_set_conv_nth)
  show "get_turn (ftable s) SOLVED_CUBE = 2"
    using get_turn_full_records [OF rs(2) full i(1)] i(2) rs(1) by simp
qed

theorem solved_cube_rediscovered_witness:
  "(\<exists>s. fill_state_table 2 make_state_table = Running s \<and> (2::nat) \<le> 2 \<and>
      SOLVED_CUBE \<in> set (queue_items (fqueue s)) \<and>
      (\<exists>i < NUMBER_OF_CUBES. cube_at (ftable s) i = SOLVED_CUBE \<and> ftable s ! (i * 5 + 4) = 2)) \<and>
   (\<exists>s. fill_state_table (NUMBER_OF_CUBES + 1) make_state_table = Running s \<and>
      cells_used (fqueue s) = 0 \<and> get_turn (ftable s) SOLVED_CUBE = 2)"
proof (rule conjI)
  obtain s where s: "fill_state_table 2 make_state_table = Running s"
    using two_iterations_run by blast
  show "\<exists>s. fill_state_table 2 make_state_table = Running s \<and> (2::nat) \<le> 2 \<and>
      SOLVED_CUBE \<in> set (queue_items (fqueue s)) \<and>
      (\<exists>i < NUMBER_OF_CUBES. cube_at (ftable s) i = SOLVED_CUBE \<and> ftable s ! (i * 5 + 4) = 2)"
    using solved_cube_rediscovered [of s 2] s by auto
next
  obtain s where s: "fill_state_table (NUMBER_OF_CUBES + 1) make_state_table = Running s"
    "cells_used (fqueue s) = 0"
    using exhaustion_at by blast
  show "\<exists>s. fill_state_table (NUMBER_OF_CUBES + 1) make_state_table = Running s \<and>
      cells_used (fqueue s) = 0 \<and> get_turn (ftable s) SOLVED_CUBE = 2"
    using solved_cube_rediscovered [of s "NUMBER_OF_CUBES + 1"] s by auto
qed

lemma get_turn_few_records:
  assumes ok: "records_ok rs" and few: "length rs \<le> 1837079" and c: "0 < c"
  shows "get_turn (table_of rs) c = - 1"
proof (rule get_turn_first_right)
  have m: "(1837079::nat) < NUMBER_OF_CUBES" by (simp add: NUMBER_OF_CUBES_def)
  show "cube_at (table_of rs) 1837079 < c"
    using records_ok_empty_slot [OF ok few m] c by simp
  fix k :: nat assume k: "1837080 \<le> k" "k < NUMBER_OF_CUBES"
  have "length rs \<le> k" using few k(1) by simp
  then show "cube_at (table_of rs) k \<noteq> c"
    using records_ok_empty_slot [OF ok _ k(2)] c by simp
qed

lemma solve_cube_after_2:
  "get_turn (table_of records_after_2) SOLVED_CUBE = - 1"
  "solve_cube SOLVED_CUBE (table_of records_after_2) = Some Null"
proof -
  show g: "get_turn (table_of records_after_2) SOLVED_CUBE = - 1"
    by (rule get_turn_few_records [OF records_after_2_ok])
      (simp_all add: records_after_2_def SOLVED_CUBE_def)
  show "solve_cube SOLVED_CUBE (table_of records_after_2) = Some Null"
    unfolding solve_cube_def by (rule solve_loop_not_found [OF g])
qed

text \<open>
  C1. What \<open>solve_cube\<close> does on the table of the build, at any stage of it and so at the
  exhaustion of the frontier too: for every reachable cube it returns \<open>NULL\<close> or writes
  past the 15 bytes of its buffer. It never returns a sequence of turns: the loop ends
  with a sequence only on a turn 0, and the build stores turns 1 to 6 only.
\<close>

theorem solve_cube_built_table:
  assumes "fill_state_table n make_state_table = Running s" and "reachable c"
  shows "solve_cube c (ftable s) = Some Null \<or> solve_cube c (ftable s) = None"
proof -
  obtain rs where rs: "ftable s = table_of rs" "records_ok rs"
    using running_table [OF assms(1)] by blast
  show ?thesis unfolding solve_cube_def rs(1) by (rule solve_loop_built [OF rs(2) assms(2)])
qed

theorem solve_cube_built_table_witness:
  "\<exists>s. fill_state_table 2 make_state_table = Running s \<and> reachable SOLVED_CUBE \<and>
     ftable s = table_of records_after_2 \<and>
     (solve_cube SOLVED_CUBE (ftable s) = Some Null \<or> solve_cube SOLVED_CUBE (ftable s) = None)"
proof -
  obtain s where s: "fill_state_table 2 make_state_table = Running s"
    "ftable s = table_of records_after_2"
    using two_iterations_run by blast
  show ?thesis using solve_cube_built_table [OF s(1) reachable_solved] s reachable_solved by blast
qed

text \<open>
  C5. \<open>fill_state_table\<close> never returns on the empty table, whatever the number of
  iterations, and after at most \<open>7 * NUMBER_OF_CUBES + 2\<close> iterations its behaviour is
  undefined: on the exhausted queue \<open>peek\<close> returns \<open>-1\<close>, the test \<open>!= 0\<close> of the loop
  holds, and the body reads \<open>turn_table[1][-1]\<close>.
\<close>

theorem fill_state_table_never_returns:
  "fill_state_table n make_state_table \<noteq> Returned s' \<and>
   fill_state_table (7 * NUMBER_OF_CUBES + 2) make_state_table = Undefined \<and>
   (cells_used (fqueue s) \<le> 0 \<longrightarrow>
      fst (peek (fqueue s)) = - 1 \<and> fst (dequeue (snd (peek (fqueue s)))) = - 1 \<and>
      frontC (- 1) = None \<and> fill_loop (Suc m) s = Undefined)"
  using never_returned [of n s'] eventually_undefined exhausted_step [of s m] by blast

theorem fill_state_table_never_returns_witness:
  "cells_used (fqueue \<lparr>fqueue = createQueue (int NUMBER_OF_CUBES), ftable = make_state_table, fcount = 0\<rparr>) \<le> 0 \<and>
   fst (peek (createQueue (int NUMBER_OF_CUBES))) = - 1 \<and>
   fill_loop (Suc 0) \<lparr>fqueue = createQueue (int NUMBER_OF_CUBES), ftable = make_state_table, fcount = 0\<rparr> = Undefined"
proof -
  have c: "cells_used (fqueue \<lparr>fqueue = createQueue (int NUMBER_OF_CUBES), ftable = make_state_table, fcount = 0\<rparr>) \<le> 0"
    by (simp add: createQueue_def)
  show ?thesis
    using fill_state_table_never_returns
      [of 0 undefined "\<lparr>fqueue = createQueue (int NUMBER_OF_CUBES), ftable = make_state_table, fcount = 0\<rparr>" 0] c
    by simp
qed

text \<open>
  C7, as the code has it. \<open>write_state_table\<close> writes the whole array, all
  \<open>NUMBER_OF_CUBES\<close> slots of 5 bytes: 18,370,800 bytes, whatever the number of records.
  In the table of the build the first \<open>count\<close> slots hold, in strictly ascending order,
  reachable cubes (read from the four bytes with the most significant first) each
  followed by a turn from 1 to 6, and all the bytes of the other slots are 0.
  \<open>add_state\<close> writes the slot it inserts at as the four bytes of the cube, the most
  significant first, followed by the turn.
\<close>

theorem persisted_table:
  "(fill_state_table n make_state_table = Running s \<longrightarrow>
      write_state_table True (ftable s) = Some (ftable s) \<and> length (ftable s) = 18370800 \<and>
      0 \<le> fcount s \<and> fcount s \<le> int NUMBER_OF_CUBES \<and>
      (\<forall>i < nat (fcount s). reachable (cube_at (ftable s) i) \<and>
          1 \<le> ftable s ! (i * 5 + 4) \<and> ftable s ! (i * 5 + 4) \<le> 6) \<and>
      (\<forall>i j. i < j \<and> j < nat (fcount s) \<longrightarrow> cube_at (ftable s) i < cube_at (ftable s) j) \<and>
      (\<forall>i b. nat (fcount s) \<le> i \<and> i < NUMBER_OF_CUBES \<and> b < 5 \<longrightarrow> ftable s ! (i * 5 + b) = 0)) \<and>
   (length t = NUMBER_OF_CUBES * 5 \<and> idx < NUMBER_OF_CUBES \<and> find_index t cube = Some (int idx) \<longrightarrow>
      (\<exists>t'. add_state t cube turn = Some (1, t') \<and> length t' = length t \<and>
         t' ! (idx * 5) = cube_byte 3 cube \<and> t' ! (idx * 5 + 1) = cube_byte 2 cube \<and>
         t' ! (idx * 5 + 2) = cube_byte 1 cube \<and> t' ! (idx * 5 + 3) = cube_byte 0 cube \<and>
         t' ! (idx * 5 + 4) = turn))"
proof (intro conjI impI)
  assume "length t = NUMBER_OF_CUBES * 5 \<and> idx < NUMBER_OF_CUBES \<and> find_index t cube = Some (int idx)"
  then have a: "length t = NUMBER_OF_CUBES * 5" "idx < NUMBER_OF_CUBES"
    "find_index t cube = Some (int idx)" by simp_all
  show "\<exists>t'. add_state t cube turn = Some (1, t') \<and> length t' = length t \<and>
         t' ! (idx * 5) = cube_byte 3 cube \<and> t' ! (idx * 5 + 1) = cube_byte 2 cube \<and>
         t' ! (idx * 5 + 2) = cube_byte 1 cube \<and> t' ! (idx * 5 + 3) = cube_byte 0 cube \<and>
         t' ! (idx * 5 + 4) = turn"
    using add_state_index [OF a(3), of turn] put_record_at [OF a(1,2), of cube turn] by simp
next
  assume run: "fill_state_table n make_state_table = Running s"
  obtain rs where rs: "ftable s = table_of rs" "records_ok rs" "fcount s = int (length rs)"
    using running_table [OF run] by blast
  have len: "length rs \<le> NUMBER_OF_CUBES" using rs(2) by (rule records_ok_length)
  have k: "nat (fcount s) = length rs" using rs(3) by simp
  show l: "length (ftable s) = 18370800" unfolding rs(1) by (rule built_length [OF rs(2)])
  show "write_state_table True (ftable s) = Some (ftable s)"
    using l by (simp add: write_state_table_def SIZE_OF_CUBE_def NUMBER_OF_CUBES_def)
  show "0 \<le> fcount s" "fcount s \<le> int NUMBER_OF_CUBES" using rs(3) len by simp_all
  show "\<forall>i < nat (fcount s). reachable (cube_at (ftable s) i) \<and>
          1 \<le> ftable s ! (i * 5 + 4) \<and> ftable s ! (i * 5 + 4) \<le> 6"
    unfolding k rs(1) using records_ok_slot [OF rs(2)] by simp
  show "\<forall>i j. i < j \<and> j < nat (fcount s) \<longrightarrow> cube_at (ftable s) i < cube_at (ftable s) j"
  proof (intro allI impI)
    fix i j assume "i < j \<and> j < nat (fcount s)"
    then have ij: "i < j" "j < length rs" "i < length rs" using k by simp_all
    have "sorted_wrt (<) (map fst rs)" using rs(2) by (simp add: records_ok_def)
    then have "fst (rs ! i) < fst (rs ! j)" using ij by (simp add: sorted_wrt_iff_nth_less)
    then show "cube_at (ftable s) i < cube_at (ftable s) j"
      unfolding rs(1) using records_ok_slot(1) [OF rs(2)] ij by simp
  qed
  show "\<forall>i b. nat (fcount s) \<le> i \<and> i < NUMBER_OF_CUBES \<and> b < 5 \<longrightarrow> ftable s ! (i * 5 + b) = 0"
    unfolding k rs(1) using table_of_nth_zero by blast
qed

theorem persisted_table_witness:
  "(\<exists>s. fill_state_table 2 make_state_table = Running s \<and> fcount s = 12 \<and>
      write_state_table True (ftable s) = Some (ftable s) \<and> length (ftable s) = 18370800 \<and>
      reachable (cube_at (ftable s) 11) \<and> 1 \<le> ftable s ! (11 * 5 + 4) \<and> ftable s ! (11 * 5 + 4) \<le> 6 \<and>
      cube_at (ftable s) 10 < cube_at (ftable s) 11 \<and> ftable s ! (12 * 5 + 4) = 0) \<and>
   length make_state_table = NUMBER_OF_CUBES * 5 \<and> (0::nat) < NUMBER_OF_CUBES \<and>
   find_index make_state_table SOLVED_CUBE = Some (int 0) \<and>
   (\<exists>t'. add_state make_state_table SOLVED_CUBE 1 = Some (1, t') \<and>
      t' ! 0 = cube_byte 3 SOLVED_CUBE \<and> t' ! 3 = cube_byte 0 SOLVED_CUBE \<and> t' ! 4 = 1)"
proof -
  obtain s where s: "fill_state_table 2 make_state_table = Running s" "fcount s = 12"
    using two_iterations_run by blast
  have m: "length make_state_table = NUMBER_OF_CUBES * 5" "(0::nat) < NUMBER_OF_CUBES"
    by (simp_all add: make_state_table_def SIZE_OF_CUBE_def NUMBER_OF_CUBES_def)
  have z: "make_state_table ! (0 * 5) = 0" "make_state_table ! (0 * 5 + 1) = 0"
    "make_state_table ! (0 * 5 + 2) = 0" "make_state_table ! (0 * 5 + 3) = 0"
    by (simp_all add: make_state_table_def SIZE_OF_CUBE_def NUMBER_OF_CUBES_def)
  have f: "find_index make_state_table SOLVED_CUBE = Some (int 0)"
    unfolding find_index_def Let_def by (rule find_index_empty [OF m(2) z])
  have n: "(12::nat) < NUMBER_OF_CUBES" by (simp add: NUMBER_OF_CUBES_def)
  have 1: "\<exists>s. fill_state_table 2 make_state_table = Running s \<and> fcount s = 12 \<and>
      write_state_table True (ftable s) = Some (ftable s) \<and> length (ftable s) = 18370800 \<and>
      reachable (cube_at (ftable s) 11) \<and> 1 \<le> ftable s ! (11 * 5 + 4) \<and> ftable s ! (11 * 5 + 4) \<le> 6 \<and>
      cube_at (ftable s) 10 < cube_at (ftable s) 11 \<and> ftable s ! (12 * 5 + 4) = 0"
  proof -
    note p = persisted_table [of 2 s, THEN conjunct1, rule_format, OF s(1)]
    have a: "\<And>i. i < 12 \<Longrightarrow> reachable (cube_at (ftable s) i) \<and>
          1 \<le> ftable s ! (i * 5 + 4) \<and> ftable s ! (i * 5 + 4) \<le> 6"
      using p s(2) by simp
    have b: "\<And>i j. i < j \<and> j < 12 \<Longrightarrow> cube_at (ftable s) i < cube_at (ftable s) j"
      using p s(2) by simp
    have c: "\<And>i b. 12 \<le> i \<and> i < NUMBER_OF_CUBES \<and> b < 5 \<Longrightarrow> ftable s ! (i * 5 + b) = 0"
      using p s(2) by simp
    show ?thesis
      using p s a [of 11] b [of 10 11] c [of 12 4] n by (intro exI [of _ s]) simp
  qed
  have 2: "\<exists>t'. add_state make_state_table SOLVED_CUBE 1 = Some (1, t') \<and>
      t' ! 0 = cube_byte 3 SOLVED_CUBE \<and> t' ! 3 = cube_byte 0 SOLVED_CUBE \<and> t' ! 4 = 1"
    using persisted_table [of _ _ make_state_table 0 SOLVED_CUBE 1, THEN conjunct2] m f by auto
  show ?thesis using 1 2 m f by blast
qed

text \<open>
  After two iterations of the build the table has 12 records, and what is written is the
  whole array of 18,370,800 bytes: not 18,370,795 bytes.
\<close>

theorem persisted_table_counterexample:
  "table_of_run (fill_state_table 2 make_state_table) = Some (table_of records_after_2) \<and>
   length records_after_2 = 12 \<and>
   write_state_table True (table_of records_after_2) = Some (table_of records_after_2) \<and>
   length (table_of records_after_2) = 18370800"
  using two_iterations_table built_length [OF records_after_2_ok]
  by (simp add: write_state_table_def SIZE_OF_CUBE_def NUMBER_OF_CUBES_def records_after_2_def)

subsection \<open>The queue never overflows\<close>









end
